theory Spec2Isabelle
  imports Complex_Main "HOL-Library.AList" "HOL-Library.Multiset"
begin

section \<open>JavaScript values, objects used as dictionaries, sorting\<close>

text \<open>
  The rows handled by the dashboard are JSON objects whose fields are loosely typed.
  A field value is one of the JavaScript primitives below; a missing field reads as
  \<open>JUndefined\<close>. Numbers are the integers (identifiers, flags); the ratios computed
  from counts are modelled as real numbers.
\<close>

datatype jsval = JUndefined | JNull | JBool bool | JNum int | JStr string

datatype error = TypeError

text \<open>Truthiness, as used by \<open>||\<close> and \<open>!\<close>.\<close>

fun truthy :: "jsval \<Rightarrow> bool" where
  "truthy JUndefined = False"
| "truthy JNull = False"
| "truthy (JBool b) = b"
| "truthy (JNum n) = (n \<noteq> 0)"
| "truthy (JStr s) = (s \<noteq> [])"

definition js_or :: "jsval \<Rightarrow> jsval \<Rightarrow> jsval" where
  "js_or a b = (if truthy a then a else b)"

text \<open>Property keys are strings: a value used as a key is converted by ToString.\<close>

function show_nat :: "nat \<Rightarrow> string" where
  "show_nat n =
     (if n < 10 then [''0123456789'' ! n]
      else show_nat (n div 10) @ [''0123456789'' ! (n mod 10)])"
  by pat_completeness auto
termination
  by (relation "measure id") auto

fun to_key :: "jsval \<Rightarrow> string" where
  "to_key JUndefined = ''undefined''"
| "to_key JNull = ''null''"
| "to_key (JBool b) = (if b then ''true'' else ''false'')"
| "to_key (JNum n) = (if n < 0 then CHR ''-'' # show_nat (nat (- n)) else show_nat (nat n))"
| "to_key (JStr s) = s"

text \<open>
  \<open>String.prototype.toLowerCase\<close> on the ASCII letters; other bytes are left as
  they are.
\<close>

definition lower_char :: "char \<Rightarrow> char" where
  "lower_char c =
     (if (65::nat) \<le> of_char c \<and> of_char c \<le> (90::nat)
      then char_of (of_char c + (32::nat)) else c)"

definition toLowerCase :: "string \<Rightarrow> string" where
  "toLowerCase s = map lower_char s"

text \<open>
  An object used as a dictionary is the list of its own properties in creation order.
  The dictionaries of this program are created by the literal \<open>{}\<close>, so their
  prototype is \<open>Object.prototype\<close>: reading \<open>ob[k]\<close> finds the own property
  \<open>k\<close>, or else what \<open>Object.prototype\<close> has under that name, which is one of
  its built-in methods or, for \<open>__proto__\<close>, the prototype object itself. Every
  inherited value is an object and therefore truthy.
\<close>

type_synonym 'v obj = "(string \<times> 'v) list"

definition object_prototype_names :: "string list" where
  "object_prototype_names =
     [''constructor'', ''__defineGetter__'', ''__defineSetter__'', ''hasOwnProperty'',
      ''__lookupGetter__'', ''__lookupSetter__'', ''isPrototypeOf'',
      ''propertyIsEnumerable'', ''toString'', ''valueOf'', ''__proto__'',
      ''toLocaleString'']"

definition inherited :: "string \<Rightarrow> bool" where
  "inherited k \<longleftrightarrow> k \<in> set object_prototype_names"

datatype 'v slot = Absent | Own 'v | Inherited

definition obj_get :: "'v obj \<Rightarrow> string \<Rightarrow> 'v slot" where
  "obj_get ob k =
     (case map_of ob k of
        Some v \<Rightarrow> Own v
      | None \<Rightarrow> if inherited k then Inherited else Absent)"

text \<open>
  The assignment \<open>ob[k] = v\<close> of a primitive value. Under \<open>__proto__\<close> it runs the
  inherited setter, which ignores a value that is neither an object nor \<open>null\<close>.
  Under any other name it creates or updates an own property (the built-in methods are
  writable data properties, which an assignment shadows): an existing key keeps its
  place, a new key is appended (\<^const>\<open>AList.update\<close>).
\<close>

definition obj_put :: "'v obj \<Rightarrow> string \<Rightarrow> 'v \<Rightarrow> 'v obj" where
  "obj_put ob k v = (if k = ''__proto__'' then ob else AList.update k v ob)"

text \<open>
  \<open>Object.values\<close> and \<open>Object.entries\<close> enumerate the own properties: the keys
  that are array indices (canonical decimal numerals below \<open>2^32 - 1\<close>) first, in
  ascending numeric order, and then every other key in creation order.
\<close>

definition is_digit :: "char \<Rightarrow> bool" where
  "is_digit c \<longleftrightarrow> (48::nat) \<le> of_char c \<and> of_char c \<le> (57::nat)"

definition digit_val :: "char \<Rightarrow> int" where
  "digit_val c = of_char c - 48"

definition num_of :: "string \<Rightarrow> int" where
  "num_of s = foldl (\<lambda>n c. 10 * n + digit_val c) 0 s"

definition is_array_index :: "string \<Rightarrow> bool" where
  "is_array_index s \<longleftrightarrow>
     s \<noteq> [] \<and> list_all is_digit s \<and> (s = ''0'' \<or> hd s \<noteq> CHR ''0'') \<and>
     length s \<le> 10 \<and> num_of s < 4294967295"

definition object_entries :: "'v obj \<Rightarrow> (string \<times> 'v) list" where
  "object_entries ob =
     sort_key (\<lambda>p. num_of (fst p)) (filter (\<lambda>p. is_array_index (fst p)) ob) @
     filter (\<lambda>p. \<not> is_array_index (fst p)) ob"

definition object_values :: "'v obj \<Rightarrow> 'v list" where
  "object_values ob = map snd (object_entries ob)"

text \<open>
  \<open>Array.prototype.sort\<close> with a comparator. The comparator returns a number, or
  \<open>None\<close> for \<open>NaN\<close>, which the sort takes as \<open>0\<close>. The sort is stable; it is
  modelled by stable insertion, which is the result of every stable sort whenever the
  comparator is consistent.
\<close>

definition sort_compare :: "('a \<Rightarrow> 'a \<Rightarrow> int option) \<Rightarrow> 'a \<Rightarrow> 'a \<Rightarrow> int" where
  "sort_compare cmp a b = (case cmp a b of None \<Rightarrow> 0 | Some v \<Rightarrow> v)"

fun insert_sorted :: "('a \<Rightarrow> 'a \<Rightarrow> int option) \<Rightarrow> 'a \<Rightarrow> 'a list \<Rightarrow> 'a list" where
  "insert_sorted cmp x [] = [x]"
| "insert_sorted cmp x (y # ys) =
     (if sort_compare cmp x y \<le> 0 then x # y # ys else y # insert_sorted cmp x ys)"

fun js_sort :: "('a \<Rightarrow> 'a \<Rightarrow> int option) \<Rightarrow> 'a list \<Rightarrow> 'a list" where
  "js_sort cmp [] = []"
| "js_sort cmp (x # xs) = insert_sorted cmp x (js_sort cmp xs)"

text \<open>
  \<open>new Date(s)\<close> is the runtime's: the functions below take it as a parameter
  \<open>date_parse\<close>, giving the time value in milliseconds, or \<open>None\<close> for an invalid
  date (whose time value is \<open>NaN\<close>). \<open>iso_date_parse\<close> is the instance used at
  concrete inputs: the date-only forms \<open>YYYY\<close>, \<open>YYYY-MM\<close> and \<open>YYYY-MM-DD\<close> of
  the ECMAScript date-time string format, read as UTC; any other string is taken as
  invalid.
\<close>

definition leap_year :: "int \<Rightarrow> bool" where
  "leap_year y \<longleftrightarrow> y mod 4 = 0 \<and> (y mod 100 \<noteq> 0 \<or> y mod 400 = 0)"

definition days_in_month :: "int \<Rightarrow> int \<Rightarrow> int" where
  "days_in_month y m =
     (if m = 2 then (if leap_year y then 29 else 28)
      else if m = 4 \<or> m = 6 \<or> m = 9 \<or> m = 11 then 30 else 31)"

definition days_from_civil :: "int \<Rightarrow> int \<Rightarrow> int \<Rightarrow> int" where
  "days_from_civil y m d =
     (let y' = (if m \<le> 2 then y - 1 else y);
          era = y' div 400;
          yoe = y' - era * 400;
          doy = (153 * (if m > 2 then m - 3 else m + 9) + 2) div 5 + d - 1;
          doe = yoe * 365 + yoe div 4 - yoe div 100 + doy
      in era * 146097 + doe - 719468)"

definition civil_time :: "int \<Rightarrow> int \<Rightarrow> int \<Rightarrow> int option" where
  "civil_time y m d =
     (if 1 \<le> m \<and> m \<le> 12 \<and> 1 \<le> d \<and> d \<le> days_in_month y m
      then Some (days_from_civil y m d * 86400000) else None)"

definition iso_date_parse :: "string \<Rightarrow> int option" where
  "iso_date_parse s =
     (if length s = 4 \<and> list_all is_digit s
        then civil_time (num_of s) 1 1
      else if length s = 7 \<and> list_all is_digit (take 4 s) \<and> s ! 4 = CHR ''-'' \<and>
              list_all is_digit (drop 5 s)
        then civil_time (num_of (take 4 s)) (num_of (drop 5 s)) 1
      else if length s = 10 \<and> list_all is_digit (take 4 s) \<and> s ! 4 = CHR ''-'' \<and>
              list_all is_digit (take 2 (drop 5 s)) \<and> s ! 7 = CHR ''-'' \<and>
              list_all is_digit (drop 8 s)
        then civil_time (num_of (take 4 s)) (num_of (take 2 (drop 5 s)))
               (num_of (drop 8 s))
      else None)"

section \<open>Traffic analytics: \<open>calculateMetrics\<close> of \<open>Traffic.jsx\<close>\<close>

text \<open>
  The fields of a session and of a pageview that the computation reads. The entries of
  the output lists have a field \<open>sessions\<close> each in the source; here every field
  carries a prefix for the kind of entry it belongs to (\<open>se_\<close> for \<open>sourceData\<close>,
  \<open>ce_\<close> for \<open>campaignData\<close>, \<open>te_\<close> for \<open>timelineData\<close>, \<open>le_\<close> for
  \<open>topLandingPages\<close>).
\<close>

record session =
  user_id :: jsval
  device_type :: jsval
  is_repeat_session :: jsval
  utm_source :: jsval
  utm_campaign :: jsval
  created_at :: jsval

record pageview =
  website_session_id :: jsval
  pageview_url :: jsval

text \<open>
  The value of a counter kept by \<open>acc[k] = (acc[k] || 0) + 1\<close>. A counter started
  on a missing key is a number. A counter started on an inherited key is a string: the
  text of the inherited object, followed by one \<open>1\<close> for every increment
  (\<open>Spoiled k n\<close> is the counter on the name \<open>k\<close> after \<open>n\<close> increments). The
  text of a built-in method is the engine's; \<open>inherited_text\<close> gives it as V8 does.
\<close>

datatype cell = Count nat | Spoiled string nat

definition inherited_text :: "string \<Rightarrow> string" where
  "inherited_text k =
     (if k = ''__proto__'' then ''[object Object]''
      else ''function '' @ (if k = ''constructor'' then ''Object'' else k) @
           ''() { [native code] }'')"

fun cell_value :: "cell \<Rightarrow> jsval" where
  "cell_value (Count n) = JNum (int n)"
| "cell_value (Spoiled k n) = JStr (inherited_text k @ replicate n (CHR ''1''))"

fun bump :: "cell \<Rightarrow> cell" where
  "bump (Count n) = Count (n + 1)"
| "bump (Spoiled k n) = Spoiled k (n + 1)"

definition count_key :: "cell obj \<Rightarrow> string \<Rightarrow> cell obj" where
  "count_key acc k =
     obj_put acc k
       (case obj_get acc k of
          Absent \<Rightarrow> Count 1
        | Own c \<Rightarrow> bump c
        | Inherited \<Rightarrow> Spoiled k 1)"

record source_bucket =
  sb_source :: jsval
  sb_sessions :: nat
  sb_users :: "jsval list"

record source_entry =
  se_source :: jsval
  se_sessions :: nat
  se_users :: nat

record campaign_entry =
  ce_campaign :: jsval
  ce_sessions :: nat

record timeline_entry =
  te_date :: string
  te_sessions :: nat
  te_desktop :: nat
  te_mobile :: nat

record landing_acc =
  la_sessions :: "bool obj"
  la_pages :: "cell obj"

record landing_entry =
  le_url :: string
  le_sessions :: cell

record metrics =
  totalSessions :: nat
  uniqueUsers :: nat
  bounceRate :: real
  avgPagesPerSession :: real
  deviceCounts :: "cell obj"
  newSessions :: nat
  returningSessions :: nat
  sourceData :: "source_entry list"
  campaignData :: "campaign_entry list"
  timelineData :: "timeline_entry list"
  topLandingPages :: "landing_entry list"

text \<open>\<open>reduce\<close> with a callback that may throw: the first exception ends the loop.\<close>

fun reduce :: "('b \<Rightarrow> 'a \<Rightarrow> error + 'b) \<Rightarrow> 'a list \<Rightarrow> 'b \<Rightarrow> error + 'b" where
  "reduce f [] acc = Inr acc"
| "reduce f (x # xs) acc =
     (case f acc x of Inl e \<Rightarrow> Inl e | Inr acc' \<Rightarrow> reduce f xs acc')"

text \<open>
  \<open>session.device_type?.toLowerCase()\<close>: \<open>undefined\<close> for a missing or null
  field, the lower-cased string for a string, and a TypeError for any other value,
  which has no method \<open>toLowerCase\<close>.
\<close>

definition lowered_device :: "session \<Rightarrow> error + jsval" where
  "lowered_device s =
     (case device_type s of
        JUndefined \<Rightarrow> Inr JUndefined
      | JNull \<Rightarrow> Inr JUndefined
      | JStr t \<Rightarrow> Inr (JStr (toLowerCase t))
      | _ \<Rightarrow> Inl TypeError)"

text \<open>The callback of the \<open>deviceCounts\<close> reduction (lines 16 to 20).\<close>

definition count_device :: "cell obj \<Rightarrow> session \<Rightarrow> error + cell obj" where
  "count_device acc s =
     (case lowered_device s of
        Inl e \<Rightarrow> Inl e
      | Inr v \<Rightarrow>
          (let device = to_key (js_or v (JStr ''unknown''))
           in Inr (count_key acc device)))"

text \<open>
  \<open>sessionPageviewCounts\<close> and \<open>bouncedSessions\<close> (lines 27 to 32); the test
  \<open>count === 1\<close> holds of the number \<open>1\<close> only.
\<close>

definition count_pageview :: "cell obj \<Rightarrow> pageview \<Rightarrow> cell obj" where
  "count_pageview acc pv = count_key acc (to_key (website_session_id pv))"

definition sessionPageviewCounts :: "pageview list \<Rightarrow> cell obj" where
  "sessionPageviewCounts pageviews = foldl count_pageview [] pageviews"

definition bouncedSessions :: "pageview list \<Rightarrow> nat" where
  "bouncedSessions pageviews =
     length (filter (\<lambda>count. cell_value count = JNum 1)
               (object_values (sessionPageviewCounts pageviews)))"

text \<open>
  \<open>trafficBySource\<close> (lines 39 to 47). The set of users of a bucket is kept as a
  list without duplicates; only its size is read. Under an inherited key
  \<open>acc[source]\<close> is a built-in object: no bucket is created,
  \<open>acc[source].sessions += 1\<close> leaves \<open>NaN\<close> on that object, and
  \<open>acc[source].users\<close> is undefined, so that \<open>.add\<close> throws a TypeError.
  (A property holding \<open>NaN\<close> is falsy and writable: a later reading of its name
  through the prototype behaves as that of a missing key.) A bucket is created only
  under a name that reads as missing, which is not \<open>__proto__\<close>: the assignment
  creates an own property.
\<close>

definition add_source :: "source_bucket obj \<Rightarrow> session \<Rightarrow> error + source_bucket obj" where
  "add_source acc s =
     (let source = js_or (utm_source s) (JStr ''direct'');
          k = to_key source;
          visit = (\<lambda>b. b\<lparr>sb_sessions := sb_sessions b + 1,
                          sb_users := List.insert (user_id s) (sb_users b)\<rparr>)
      in case obj_get acc k of
           Absent \<Rightarrow>
             Inr (AList.update k
                    (visit \<lparr>sb_source = source, sb_sessions = 0, sb_users = []\<rparr>) acc)
         | Own b \<Rightarrow> Inr (AList.update k (visit b) acc)
         | Inherited \<Rightarrow> Inl TypeError)"

definition trafficBySource :: "session list \<Rightarrow> error + source_bucket obj" where
  "trafficBySource sessions = reduce add_source sessions []"

text \<open>
  \<open>trafficByCampaign\<close> (lines 56 to 63). Under an inherited key no bucket is created
  and the increment goes to the built-in object: the dictionary stays as it is.
\<close>

definition add_campaign :: "campaign_entry obj \<Rightarrow> session \<Rightarrow> campaign_entry obj" where
  "add_campaign acc s =
     (let campaign = js_or (utm_campaign s) (JStr ''none'');
          k = to_key campaign;
          visit = (\<lambda>b. b\<lparr>ce_sessions := ce_sessions b + 1\<rparr>)
      in case obj_get acc k of
           Absent \<Rightarrow>
             AList.update k (visit \<lparr>ce_campaign = campaign, ce_sessions = 0\<rparr>) acc
         | Own b \<Rightarrow> AList.update k (visit b) acc
         | Inherited \<Rightarrow> acc)"

definition trafficByCampaign :: "session list \<Rightarrow> campaign_entry obj" where
  "trafficByCampaign sessions = foldl add_campaign [] sessions"

text \<open>
  \<open>trafficByDate\<close> (lines 68 to 80). \<open>session.created_at.split(' ')[0]\<close> is the
  part of the string before its first space, and a TypeError when \<open>created_at\<close> is
  not a string. Both tests of the device type evaluate the same expression, which can
  throw; it is evaluated once, before the dictionary is written, since a callback that
  throws leaves no dictionary behind. Under an inherited key no entry is created and
  the increments go to the built-in object.
\<close>

definition date_part :: "session \<Rightarrow> error + string" where
  "date_part s =
     (case created_at s of
        JStr t \<Rightarrow> Inr (takeWhile (\<lambda>c. c \<noteq> CHR '' '') t)
      | _ \<Rightarrow> Inl TypeError)"

definition add_date :: "timeline_entry obj \<Rightarrow> session \<Rightarrow> error + timeline_entry obj" where
  "add_date acc s =
     (case date_part s of
        Inl e \<Rightarrow> Inl e
      | Inr date \<Rightarrow>
     (case lowered_device s of
        Inl e \<Rightarrow> Inl e
      | Inr v \<Rightarrow>
          (let visit =
                 (\<lambda>b. let b1 = b\<lparr>te_sessions := te_sessions b + 1\<rparr>
                       in if v = JStr ''desktop'' then b1\<lparr>te_desktop := te_desktop b1 + 1\<rparr>
                          else if v = JStr ''mobile''
                          then b1\<lparr>te_mobile := te_mobile b1 + 1\<rparr>
                          else b1)
           in Inr (case obj_get acc date of
                     Absent \<Rightarrow>
                       AList.update date
                         (visit \<lparr>te_date = date, te_sessions = 0, te_desktop = 0,
                                 te_mobile = 0\<rparr>) acc
                   | Own b \<Rightarrow> AList.update date (visit b) acc
                   | Inherited \<Rightarrow> acc))))"

definition trafficByDate :: "session list \<Rightarrow> error + timeline_entry obj" where
  "trafficByDate sessions = reduce add_date sessions []"

text \<open>The comparator \<open>new Date(a.date) - new Date(b.date)\<close> (lines 82 to 84).\<close>

definition date_diff ::
  "(string \<Rightarrow> int option) \<Rightarrow> timeline_entry \<Rightarrow> timeline_entry \<Rightarrow> int option" where
  "date_diff date_parse a b =
     (case (date_parse (te_date a), date_parse (te_date b)) of
        (Some x, Some y) \<Rightarrow> Some (x - y)
      | _ \<Rightarrow> None)"

text \<open>
  \<open>landingPages\<close> and \<open>topLandingPages\<close> (lines 87 to 99). A session id that is
  an inherited name reads as already seen. The comparator \<open>b.sessions - a.sessions\<close>
  is \<open>NaN\<close> as soon as one of the two counters is a string.
\<close>

definition add_landing :: "landing_acc \<Rightarrow> pageview \<Rightarrow> landing_acc" where
  "add_landing acc pv =
     (let k = to_key (website_session_id pv);
          seen = (case obj_get (la_sessions acc) k of
                    Absent \<Rightarrow> False
                  | Own b \<Rightarrow> b
                  | Inherited \<Rightarrow> True)
      in if \<not> seen
         then (let url = to_key (js_or (pageview_url pv) (JStr ''/''))
               in \<lparr>la_sessions = obj_put (la_sessions acc) k True,
                   la_pages = count_key (la_pages acc) url\<rparr>)
         else acc)"

definition landingPages :: "pageview list \<Rightarrow> landing_acc" where
  "landingPages pageviews = foldl add_landing \<lparr>la_sessions = [], la_pages = []\<rparr> pageviews"

definition by_sessions_desc :: "landing_entry \<Rightarrow> landing_entry \<Rightarrow> int option" where
  "by_sessions_desc a b =
     (case (le_sessions b, le_sessions a) of
        (Count y, Count x) \<Rightarrow> Some (int y - int x)
      | _ \<Rightarrow> None)"

text \<open>
  \<open>calculateMetrics\<close> (lines 8 to 114). The three reductions that can throw are run
  in the order of the source; every other step is total.
\<close>

definition calculateMetrics ::
  "(string \<Rightarrow> int option) \<Rightarrow> session list \<Rightarrow> pageview list \<Rightarrow> error + metrics" where
  "calculateMetrics date_parse sessions pageviews =
     (case reduce count_device sessions [] of
        Inl e \<Rightarrow> Inl e
      | Inr counts \<Rightarrow>
     (case trafficBySource sessions of
        Inl e \<Rightarrow> Inl e
      | Inr by_source \<Rightarrow>
     (case trafficByDate sessions of
        Inl e \<Rightarrow> Inl e
      | Inr by_date \<Rightarrow>
          Inr \<lparr>totalSessions = length sessions,
               uniqueUsers = length (remdups (map user_id sessions)),
               bounceRate =
                 (if length sessions > 0
                  then real (bouncedSessions pageviews) / real (length sessions) * 100
                  else 0),
               avgPagesPerSession =
                 (if length sessions > 0
                  then real (length pageviews) / real (length sessions) else 0),
               deviceCounts = counts,
               newSessions = length (filter (\<lambda>s. is_repeat_session s = JStr ''0'') sessions),
               returningSessions =
                 length (filter (\<lambda>s. is_repeat_session s = JStr ''1'') sessions),
               sourceData =
                 map (\<lambda>item. \<lparr>se_source = sb_source item, se_sessions = sb_sessions item,
                                se_users = length (sb_users item)\<rparr>)
                     (object_values by_source),
               campaignData = object_values (trafficByCampaign sessions),
               timelineData = js_sort (date_diff date_parse) (object_values by_date),
               topLandingPages =
                 js_sort by_sessions_desc
                   (map (\<lambda>(url, count). \<lparr>le_url = url, le_sessions = count\<rparr>)
                        (object_entries (la_pages (landingPages pageviews))))\<rparr>)))"

text \<open>
  The component calls \<open>calculateMetrics()\<close> while rendering, outside any
  \<open>try\<close> block (line 116): what it throws leaves the component.
\<close>

definition TrafficSection ::
  "(string \<Rightarrow> int option) \<Rightarrow> session list \<Rightarrow> pageview list \<Rightarrow> error + metrics" where
  "TrafficSection date_parse sessions pageviews = calculateMetrics date_parse sessions pageviews"

section \<open>The hook \<open>useDashboardData\<close>\<close>

text \<open>
  A raw data set is what the JSON import gives: an array of rows, or some other value.
  The cleaners and calculators are imported from the module \<open>utils/dataCleaners\<close>;
  the hook takes them as parameters. A cleaner or calculator may throw.
\<close>

datatype 'r raw = NotArray | Array "'r list"

definition LIMIT_ROWS :: nat where
  "LIMIT_ROWS = 500"

record 'r raw_data =
  ordersRaw :: "'r raw"
  orderItemsRaw :: "'r raw"
  refundsRaw :: "'r raw"
  productsRaw :: "'r raw"
  sessionsRaw :: "'r raw"
  pageviewsRaw :: "'r raw"

record ('r, 'o, 'i, 'f, 'p, 's, 'v) cleaners =
  cleanOrdersData :: "'r list \<Rightarrow> error + 'o list"
  cleanOrderItemsData :: "'r list \<Rightarrow> error + 'i list"
  cleanRefundsData :: "'r list \<Rightarrow> error + 'f list"
  cleanProductsData :: "'r list \<Rightarrow> error + 'p list"
  cleanSessionsData :: "'r list \<Rightarrow> error + 's list"
  cleanPageviewsData :: "'r list \<Rightarrow> error + 'v list"

text \<open>
  The object returned by \<open>processedData\<close>; its fields \<open>orders\<close>, \<open>orderItems\<close>,
  \<open>refunds\<close>, \<open>products\<close>, \<open>sessions\<close> and \<open>pageviews\<close> carry the prefix
  \<open>pd_\<close>.
\<close>

record ('o, 'i, 'f, 'p, 's, 'v) processed =
  pd_orders :: "'o list"
  pd_orderItems :: "'i list"
  pd_refunds :: "'f list"
  pd_products :: "'p list"
  pd_sessions :: "'s list"
  pd_pageviews :: "'v list"

definition no_data :: "('o, 'i, 'f, 'p, 's, 'v) processed" where
  "no_data = \<lparr>pd_orders = [], pd_orderItems = [], pd_refunds = [], pd_products = [],
               pd_sessions = [], pd_pageviews = []\<rparr>"

text \<open>
  \<open>processedData\<close> (lines 34 to 96): the result and the error that \<open>setError\<close>
  records when a cleaner throws.
\<close>

definition processedData ::
  "('r, 'o, 'i, 'f, 'p, 's, 'v) cleaners \<Rightarrow> 'r raw_data \<Rightarrow>
     error option \<times> ('o, 'i, 'f, 'p, 's, 'v) processed" where
  "processedData cl rw =
     (let ordersLimited =
            (case ordersRaw rw of Array xs \<Rightarrow> take LIMIT_ROWS xs | NotArray \<Rightarrow> []);
          orderItemsLimited =
            (case orderItemsRaw rw of Array xs \<Rightarrow> take LIMIT_ROWS xs | NotArray \<Rightarrow> []);
          refundsLimited =
            (case refundsRaw rw of Array xs \<Rightarrow> take LIMIT_ROWS xs | NotArray \<Rightarrow> []);
          productsLimited =
            (case productsRaw rw of Array xs \<Rightarrow> take LIMIT_ROWS xs | NotArray \<Rightarrow> []);
          sessionsLimited =
            (case sessionsRaw rw of Array xs \<Rightarrow> take LIMIT_ROWS xs | NotArray \<Rightarrow> []);
          pageviewsLimited =
            (case pageviewsRaw rw of Array xs \<Rightarrow> take LIMIT_ROWS xs | NotArray \<Rightarrow> [])
      in case cleanOrdersData cl ordersLimited of
           Inl err \<Rightarrow> (Some err, no_data)
         | Inr orders \<Rightarrow>
        (case cleanOrderItemsData cl orderItemsLimited of
           Inl err \<Rightarrow> (Some err, no_data)
         | Inr orderItems \<Rightarrow>
        (case cleanRefundsData cl refundsLimited of
           Inl err \<Rightarrow> (Some err, no_data)
         | Inr refunds \<Rightarrow>
        (case cleanProductsData cl productsLimited of
           Inl err \<Rightarrow> (Some err, no_data)
         | Inr products \<Rightarrow>
        (case cleanSessionsData cl sessionsLimited of
           Inl err \<Rightarrow> (Some err, no_data)
         | Inr sessions \<Rightarrow>
        (case cleanPageviewsData cl pageviewsLimited of
           Inl err \<Rightarrow> (Some err, no_data)
         | Inr pageviews \<Rightarrow>
             (None, \<lparr>pd_orders = orders, pd_orderItems = orderItems, pd_refunds = refunds,
                     pd_products = products, pd_sessions = sessions,
                     pd_pageviews = pageviews\<rparr>)))))))"

record ('o, 'f) calculators =
  calculateTotalRevenue :: "'o list \<Rightarrow> error + real"
  calculateTotalRefunds :: "'f list \<Rightarrow> error + real"
  calculateRefundRate :: "'o list \<Rightarrow> 'f list \<Rightarrow> error + real"
  calculateAOV :: "'o list \<Rightarrow> error + real"

text \<open>
  The object returned by the \<open>metrics\<close> memo (lines 102 to 136); its field
  \<open>totalSessions\<close> is \<open>fm_totalSessions\<close> here.
\<close>

record financial_metrics =
  totalOrders :: nat
  totalRevenue :: real
  totalRefunds :: real
  refundRate :: real
  aov :: real
  netRevenue :: real
  fm_totalSessions :: nat
  totalPageviews :: nat
  totalProducts :: nat
  limited :: nat

definition zero_metrics :: financial_metrics where
  "zero_metrics =
     \<lparr>totalOrders = 0, totalRevenue = 0, totalRefunds = 0, refundRate = 0, aov = 0,
      netRevenue = 0, fm_totalSessions = 0, totalPageviews = 0, totalProducts = 0,
      limited = LIMIT_ROWS\<rparr>"

definition useDashboardData_metrics ::
  "('o, 'f) calculators \<Rightarrow> 'o list \<Rightarrow> 'f list \<Rightarrow> 's list \<Rightarrow> 'v list \<Rightarrow> 'p list \<Rightarrow>
     financial_metrics" where
  "useDashboardData_metrics calc orders refunds sessions pageviews products =
     (case calculateTotalRevenue calc orders of
        Inl err \<Rightarrow> zero_metrics
      | Inr revenue \<Rightarrow>
     (case calculateTotalRefunds calc refunds of
        Inl err \<Rightarrow> zero_metrics
      | Inr refunded \<Rightarrow>
     (case calculateRefundRate calc orders refunds of
        Inl err \<Rightarrow> zero_metrics
      | Inr rate \<Rightarrow>
     (case calculateAOV calc orders of
        Inl err \<Rightarrow> zero_metrics
      | Inr average \<Rightarrow>
          \<lparr>totalOrders = length orders, totalRevenue = revenue, totalRefunds = refunded,
           refundRate = rate, aov = average, netRevenue = revenue - refunded,
           fm_totalSessions = length sessions, totalPageviews = length pageviews,
           totalProducts = length products, limited = LIMIT_ROWS\<rparr>))))"

subsection \<open>The calculators, from the specification\<close>

record order =
  total_amount :: real

record refund =
  amount :: real

text \<open>
  Modelled from the spec: \<open>calculateTotalRevenue\<close> of \<open>utils/dataCleaners\<close>, which is
  not among the sources: \<open>totalRevenue\<close> is the sum of \<open>order.total_amount\<close>.
\<close>

definition spec_totalRevenue :: "order list \<Rightarrow> real" where
  "spec_totalRevenue orders = sum_list (map total_amount orders)"

text \<open>
  Modelled from the spec: \<open>calculateTotalRefunds\<close> of \<open>utils/dataCleaners\<close>, which is
  not among the sources: \<open>totalRefunds\<close> is the sum of \<open>refund.amount\<close>.
\<close>

definition spec_totalRefunds :: "refund list \<Rightarrow> real" where
  "spec_totalRefunds refunds = sum_list (map amount refunds)"

text \<open>
  Modelled from the spec: \<open>calculateRefundRate\<close> of \<open>utils/dataCleaners\<close>, which is
  not among the sources: \<open>totalRefunds / totalRevenue\<close> when \<open>totalRevenue > 0\<close>,
  else \<open>0\<close>.
\<close>

definition spec_refundRate :: "order list \<Rightarrow> refund list \<Rightarrow> real" where
  "spec_refundRate orders refunds =
     (if spec_totalRevenue orders > 0
      then spec_totalRefunds refunds / spec_totalRevenue orders else 0)"

text \<open>
  Modelled from the spec: \<open>calculateAOV\<close> of \<open>utils/dataCleaners\<close>, which is not
  among the sources: \<open>totalRevenue / orders.length\<close> when \<open>orders.length > 0\<close>,
  else \<open>0\<close>.
\<close>

definition spec_aov :: "order list \<Rightarrow> real" where
  "spec_aov orders =
     (if length orders > 0 then spec_totalRevenue orders / real (length orders) else 0)"

definition spec_calculators :: "(order, refund) calculators" where
  "spec_calculators =
     \<lparr>calculateTotalRevenue = (\<lambda>orders. Inr (spec_totalRevenue orders)),
      calculateTotalRefunds = (\<lambda>refunds. Inr (spec_totalRefunds refunds)),
      calculateRefundRate = (\<lambda>orders refunds. Inr (spec_refundRate orders refunds)),
      calculateAOV = (\<lambda>orders. Inr (spec_aov orders))\<rparr>"

section \<open>Notions used to state the properties\<close>

text \<open>
  The key under which a pageview is counted, the number of pageviews of a key, the URL
  under which a landing pageview is counted, the landing URL of a session (that of the
  first pageview with its key, in input order), and the number of sessions landing on
  a URL.
\<close>

definition pv_key :: "pageview \<Rightarrow> string" where
  "pv_key pv = to_key (website_session_id pv)"

definition pageview_count :: "pageview list \<Rightarrow> string \<Rightarrow> nat" where
  "pageview_count pageviews k = length (filter (\<lambda>pv. pv_key pv = k) pageviews)"




text \<open>
  A session whose device type is missing, null or a string; the bucket of
  \<open>deviceCounts\<close> it falls in; whether its lower-cased device type is a given name.
\<close>

definition device_ok :: "session \<Rightarrow> bool" where
  "device_ok s = (case device_type s of JBool b \<Rightarrow> False | JNum n \<Rightarrow> False | _ \<Rightarrow> True)"

definition device_key :: "session \<Rightarrow> string" where
  "device_key s =
     (case device_type s of
        JStr t \<Rightarrow> (if toLowerCase t = [] then ''unknown'' else toLowerCase t)
      | _ \<Rightarrow> ''unknown'')"

definition device_is :: "string \<Rightarrow> session \<Rightarrow> bool" where
  "device_is name s = (case device_type s of JStr t \<Rightarrow> toLowerCase t = name | _ \<Rightarrow> False)"

text \<open>A session whose \<open>created_at\<close> is a string, and the date it is grouped under.\<close>

definition date_ok :: "session \<Rightarrow> bool" where
  "date_ok s = (case created_at s of JStr t \<Rightarrow> True | _ \<Rightarrow> False)"

definition date_key :: "session \<Rightarrow> string" where
  "date_key s = (case created_at s of JStr t \<Rightarrow> takeWhile (\<lambda>c. c \<noteq> CHR '' '') t | _ \<Rightarrow> [])"

definition day_entry :: "session list \<Rightarrow> string \<Rightarrow> timeline_entry" where
  "day_entry sessions d =
     \<lparr>te_date = d,
      te_sessions = length (filter (\<lambda>s. date_key s = d) sessions),
      te_desktop = length (filter (\<lambda>s. date_key s = d \<and> device_is ''desktop'' s) sessions),
      te_mobile = length (filter (\<lambda>s. date_key s = d \<and> device_is ''mobile'' s) sessions)\<rparr>"

text \<open>The dates that get an entry: those that are not inherited names.\<close>

definition timeline_dates :: "session list \<Rightarrow> string set" where
  "timeline_dates sessions = {d \<in> date_key ` set sessions. \<not> inherited d}"

text \<open>One entry is strictly before another by date: both dates are valid and ordered.\<close>

definition date_lt :: "(string \<Rightarrow> int option) \<Rightarrow> timeline_entry \<Rightarrow> timeline_entry \<Rightarrow> bool" where
  "date_lt date_parse a b =
     (case (date_parse (te_date a), date_parse (te_date b)) of
        (Some x, Some y) \<Rightarrow> x < y
      | _ \<Rightarrow> False)"

text \<open>The buckets of \<open>sourceData\<close> and \<open>campaignData\<close> a session falls in.\<close>

definition source_key :: "session \<Rightarrow> string" where
  "source_key s = to_key (js_or (utm_source s) (JStr ''direct''))"

definition campaign_key :: "session \<Rightarrow> string" where
  "campaign_key s = to_key (js_or (utm_campaign s) (JStr ''none''))"

text \<open>
  The sessions arrays on which \<open>calculateMetrics\<close> returns: every device type is
  missing, null or a string, every \<open>created_at\<close> is a string, and no source is an
  inherited name.
\<close>

definition returns_ok :: "session list \<Rightarrow> bool" where
  "returns_ok sessions \<longleftrightarrow>
     (\<forall>s\<in>set sessions. device_ok s \<and> date_ok s \<and> \<not> inherited (source_key s))"


text \<open>
  The common shape of the grouping reductions: the bucket of the element's key is
  created on first use and then updated.
\<close>

definition group_step ::
  "('a \<Rightarrow> string) \<Rightarrow> ('a \<Rightarrow> 'b) \<Rightarrow> ('a \<Rightarrow> 'b \<Rightarrow> 'b) \<Rightarrow> 'b obj \<Rightarrow> 'a \<Rightarrow> 'b obj" where
  "group_step key init upd acc x =
     AList.update (key x)
       (upd x (case map_of acc (key x) of None \<Rightarrow> init x | Some b \<Rightarrow> b)) acc"

text \<open>A dictionary none of whose own keys is an inherited name.\<close>

definition plain_keys :: "'v obj \<Rightarrow> bool" where
  "plain_keys ob \<longleftrightarrow> (\<forall>k\<in>fst ` set ob. \<not> inherited k)"

text \<open>
  The buckets of the reductions in that shape: how a bucket starts and what an element
  adds to it.
\<close>

definition cell_init :: "string \<Rightarrow> cell" where
  "cell_init k = (if inherited k then Spoiled k 0 else Count 0)"

definition cell_upd :: "string \<Rightarrow> cell \<Rightarrow> cell" where
  "cell_upd k c = bump c"


definition counters :: "string list \<Rightarrow> cell obj" where
  "counters ks = foldl count_key [] ks"

text \<open>
  The counter a list of keys leaves under one of them: a number for a plain key, a
  string for an inherited one.
\<close>

definition tally :: "string list \<Rightarrow> string \<Rightarrow> cell" where
  "tally ks k =
     (if inherited k then Spoiled k (length (filter (\<lambda>x. x = k) ks))
      else Count (length (filter (\<lambda>x. x = k) ks)))"

definition source_init :: "session \<Rightarrow> source_bucket" where
  "source_init s =
     \<lparr>sb_source = js_or (utm_source s) (JStr ''direct''), sb_sessions = 0, sb_users = []\<rparr>"

definition source_upd :: "session \<Rightarrow> source_bucket \<Rightarrow> source_bucket" where
  "source_upd s b =
     b\<lparr>sb_sessions := sb_sessions b + 1, sb_users := List.insert (user_id s) (sb_users b)\<rparr>"

definition source_groups :: "session list \<Rightarrow> source_bucket obj" where
  "source_groups sessions = foldl (group_step source_key source_init source_upd) [] sessions"

definition campaign_init :: "session \<Rightarrow> campaign_entry" where
  "campaign_init s = \<lparr>ce_campaign = js_or (utm_campaign s) (JStr ''none''), ce_sessions = 0\<rparr>"

definition campaign_upd :: "session \<Rightarrow> campaign_entry \<Rightarrow> campaign_entry" where
  "campaign_upd s b = b\<lparr>ce_sessions := ce_sessions b + 1\<rparr>"

definition campaign_groups :: "session list \<Rightarrow> campaign_entry obj" where
  "campaign_groups sessions =
     foldl (group_step campaign_key campaign_init campaign_upd) [] sessions"

definition day_init :: "session \<Rightarrow> timeline_entry" where
  "day_init s = \<lparr>te_date = date_key s, te_sessions = 0, te_desktop = 0, te_mobile = 0\<rparr>"

definition day_upd :: "session \<Rightarrow> timeline_entry \<Rightarrow> timeline_entry" where
  "day_upd s b =
     (if device_is ''desktop'' s
      then b\<lparr>te_sessions := te_sessions b + 1, te_desktop := te_desktop b + 1\<rparr>
      else if device_is ''mobile'' s
      then b\<lparr>te_sessions := te_sessions b + 1, te_mobile := te_mobile b + 1\<rparr>
      else b\<lparr>te_sessions := te_sessions b + 1\<rparr>)"

definition day_groups :: "session list \<Rightarrow> timeline_entry obj" where
  "day_groups sessions = foldl (group_step date_key day_init day_upd) [] sessions"

text \<open>The entries of \<open>sourceData\<close> and \<open>campaignData\<close> with their labels as keys.\<close>

definition source_row :: "source_entry \<Rightarrow> string \<times> nat \<times> nat" where
  "source_row e = (to_key (se_source e), se_sessions e, se_users e)"

definition campaign_row :: "campaign_entry \<Rightarrow> string \<times> nat" where
  "campaign_row e = (to_key (ce_campaign e), ce_sessions e)"

text \<open>A label that is a string, or missing.\<close>

definition text_or_missing :: "jsval \<Rightarrow> bool" where
  "text_or_missing v = (case v of JBool b \<Rightarrow> False | JNum n \<Rightarrow> False | _ \<Rightarrow> True)"

text \<open>The first rows of a raw data set, and cleaners that hand back the rows they get.\<close>

definition first_rows :: "'r raw \<Rightarrow> 'r list" where
  "first_rows r = (case r of Array xs \<Rightarrow> take 500 xs | NotArray \<Rightarrow> [])"

definition capped :: "'r raw_data \<Rightarrow> 'r raw_data" where
  "capped rw =
     \<lparr>ordersRaw = Array (first_rows (ordersRaw rw)),
      orderItemsRaw = Array (first_rows (orderItemsRaw rw)),
      refundsRaw = Array (first_rows (refundsRaw rw)),
      productsRaw = Array (first_rows (productsRaw rw)),
      sessionsRaw = Array (first_rows (sessionsRaw rw)),
      pageviewsRaw = Array (first_rows (pageviewsRaw rw))\<rparr>"

definition echo_cleaners :: "('r, 'r, 'r, 'r, 'r, 'r, 'r) cleaners" where
  "echo_cleaners =
     \<lparr>cleanOrdersData = Inr, cleanOrderItemsData = Inr, cleanRefundsData = Inr,
      cleanProductsData = Inr, cleanSessionsData = Inr, cleanPageviewsData = Inr\<rparr>"

section \<open>Sample data\<close>

text \<open>
  Three sessions and five pageviews: sessions 1 and 2 have two pageviews each,
  session 3 has one.
\<close>

definition sample_sessions :: "session list" where
  "sample_sessions =
     [\<lparr>user_id = JNum 1, device_type = JStr ''Mobile'', is_repeat_session = JStr ''0'',
       utm_source = JStr ''gsearch'', utm_campaign = JUndefined,
       created_at = JStr ''2012-03-20 10:00:00''\<rparr>,
      \<lparr>user_id = JNum 2, device_type = JStr ''desktop'', is_repeat_session = JStr ''1'',
       utm_source = JNull, utm_campaign = JStr ''brand'',
       created_at = JStr ''2012-03-19 11:00:00''\<rparr>,
      \<lparr>user_id = JNum 1, device_type = JUndefined, is_repeat_session = JNum 0,
       utm_source = JStr ''gsearch'', utm_campaign = JStr [],
       created_at = JStr ''2012-03-20 12:00:00''\<rparr>]"

definition sample_pageviews :: "pageview list" where
  "sample_pageviews =
     [\<lparr>website_session_id = JNum 1, pageview_url = JStr ''/home''\<rparr>,
      \<lparr>website_session_id = JNum 2, pageview_url = JStr ''/lander-1''\<rparr>,
      \<lparr>website_session_id = JNum 1, pageview_url = JStr ''/products''\<rparr>,
      \<lparr>website_session_id = JNum 2, pageview_url = JStr ''/cart''\<rparr>,
      \<lparr>website_session_id = JNum 3, pageview_url = JUndefined\<rparr>]"

definition sample_metrics :: metrics where
  "sample_metrics =
     \<lparr>totalSessions = 3, uniqueUsers = 2, bounceRate = 100 / 3, avgPagesPerSession = 5 / 3,
      deviceCounts = [(''mobile'', Count 1), (''desktop'', Count 1), (''unknown'', Count 1)],
      newSessions = 1, returningSessions = 1,
      sourceData =
        [\<lparr>se_source = JStr ''gsearch'', se_sessions = 2, se_users = 1\<rparr>,
         \<lparr>se_source = JStr ''direct'', se_sessions = 1, se_users = 1\<rparr>],
      campaignData =
        [\<lparr>ce_campaign = JStr ''none'', ce_sessions = 2\<rparr>,
         \<lparr>ce_campaign = JStr ''brand'', ce_sessions = 1\<rparr>],
      timelineData =
        [\<lparr>te_date = ''2012-03-19'', te_sessions = 1, te_desktop = 1, te_mobile = 0\<rparr>,
         \<lparr>te_date = ''2012-03-20'', te_sessions = 2, te_desktop = 0, te_mobile = 1\<rparr>],
      topLandingPages =
        [\<lparr>le_url = ''/home'', le_sessions = Count 1\<rparr>,
         \<lparr>le_url = ''/lander-1'', le_sessions = Count 1\<rparr>,
         \<lparr>le_url = ''/'', le_sessions = Count 1\<rparr>]\<rparr>"


text \<open>One session, and two pageviews of two other sessions.\<close>

definition lone_session :: "session list" where
  "lone_session =
     [\<lparr>user_id = JNum 7, device_type = JStr ''mobile'', is_repeat_session = JStr ''0'',
       utm_source = JStr ''gsearch'', utm_campaign = JStr ''nonbrand'',
       created_at = JStr ''2012-03-19 08:04:16''\<rparr>]"

definition orphan_pageviews :: "pageview list" where
  "orphan_pageviews =
     [\<lparr>website_session_id = JNum 2, pageview_url = JStr ''/home''\<rparr>,
      \<lparr>website_session_id = JNum 3, pageview_url = JStr ''/home''\<rparr>]"

text \<open>One pageview of the session of user 7.\<close>

definition lone_pageviews :: "pageview list" where
  "lone_pageviews = [\<lparr>website_session_id = JNum 7, pageview_url = JStr ''/home''\<rparr>]"


text \<open>Two sessions whose dates are written day first, which no engine parses.\<close>

definition day_first_sessions :: "session list" where
  "day_first_sessions =
     [\<lparr>user_id = JNum 1, device_type = JStr ''mobile'', is_repeat_session = JStr ''0'',
       utm_source = JStr ''gsearch'', utm_campaign = JStr ''nonbrand'',
       created_at = JStr ''19/03/2012 08:04:16''\<rparr>,
      \<lparr>user_id = JNum 2, device_type = JStr ''desktop'', is_repeat_session = JStr ''0'',
       utm_source = JStr ''gsearch'', utm_campaign = JStr ''nonbrand'',
       created_at = JStr ''18/03/2012 09:12:00''\<rparr>]"

text \<open>Two sessions whose source is the number 5 and the string 5.\<close>

definition mixed_label_sessions :: "session list" where
  "mixed_label_sessions =
     [\<lparr>user_id = JNum 1, device_type = JStr ''mobile'', is_repeat_session = JStr ''0'',
       utm_source = JNum 5, utm_campaign = JStr ''nonbrand'',
       created_at = JStr ''2012-03-19 08:04:16''\<rparr>,
      \<lparr>user_id = JNum 2, device_type = JStr ''desktop'', is_repeat_session = JStr ''0'',
       utm_source = JStr ''5'', utm_campaign = JStr ''nonbrand'',
       created_at = JStr ''2012-03-19 09:12:00''\<rparr>]"

text \<open>A session without \<open>created_at\<close>.\<close>

definition undated_session :: "session list" where
  "undated_session =
     [\<lparr>user_id = JNum 1, device_type = JStr ''mobile'', is_repeat_session = JStr ''0'',
       utm_source = JStr ''gsearch'', utm_campaign = JStr ''nonbrand'',
       created_at = JUndefined\<rparr>]"


definition numeric_device_session :: "session list" where
  "numeric_device_session =
     [\<lparr>user_id = JNum 1, device_type = JNum 2, is_repeat_session = JStr ''0'',
       utm_source = JStr ''gsearch'', utm_campaign = JStr ''nonbrand'',
       created_at = JStr ''2012-03-19 08:04:16''\<rparr>]"


section \<open>Objects, sorting and grouping\<close>

subsection \<open>Objects\<close>

lemma mset_object_entries: "mset (object_entries ob) = mset ob"
  unfolding object_entries_def by simp

lemma set_object_entries: "set (object_entries ob) = set ob"
  by (metis mset_object_entries set_mset_mset)

lemma mset_object_values: "mset (object_values ob) = mset (map snd ob)"
  unfolding object_values_def by (simp add: mset_object_entries)

lemma distinct_object_entries:
  "distinct (map fst (object_entries ob)) = distinct (map fst ob)"
proof -
  have "mset (map fst (object_entries ob)) = mset (map fst ob)"
    by (simp add: mset_object_entries)
  then show ?thesis by (rule mset_eq_imp_distinct_iff)
qed

subsection \<open>Sorting\<close>

lemma mset_insert_sorted: "mset (insert_sorted cmp x xs) = add_mset x (mset xs)"
  by (induction xs) auto

lemma mset_js_sort: "mset (js_sort cmp xs) = mset xs"
  by (induction xs) (auto simp: mset_insert_sorted)

lemma set_js_sort: "set (js_sort cmp xs) = set xs"
  by (metis mset_js_sort set_mset_mset)

lemma sorted_insert_sorted:
  fixes f :: "'a \<Rightarrow> 'k::linorder"
  assumes "\<And>y. y \<in> set ys \<Longrightarrow> (sort_compare cmp x y \<le> 0) = (f x \<le> f y)"
    and "sorted (map f ys)"
  shows "sorted (map f (insert_sorted cmp x ys))"
  using assms
proof (induction ys)
  case Nil
  then show ?case by simp
next
  case (Cons y ys)
  have set_ins: "set (insert_sorted cmp x ys) = insert x (set ys)"
    by (metis mset_insert_sorted set_mset_add_mset_insert set_mset_mset)
  show ?case
  proof (cases "sort_compare cmp x y \<le> 0")
    case True
    with Cons.prems show ?thesis by auto
  next
    case False
    with Cons.prems have "f y \<le> f x" by auto
    moreover have "sorted (map f (insert_sorted cmp x ys))"
      using Cons by simp
    ultimately show ?thesis
      using False Cons.prems(2) by (auto simp: set_ins)
  qed
qed

lemma sorted_js_sort:
  fixes f :: "'a \<Rightarrow> 'k::linorder"
  assumes "\<And>x y. x \<in> set xs \<Longrightarrow> y \<in> set xs \<Longrightarrow> (sort_compare cmp x y \<le> 0) = (f x \<le> f y)"
  shows "sorted (map f (js_sort cmp xs))"
  using assms
proof (induction xs)
  case Nil
  then show ?case by simp
next
  case (Cons x xs)
  have "sorted (map f (js_sort cmp xs))"
    using Cons by simp
  moreover have "\<And>y. y \<in> set (js_sort cmp xs) \<Longrightarrow> (sort_compare cmp x y \<le> 0) = (f x \<le> f y)"
    using Cons.prems by (simp add: set_js_sort)
  ultimately show ?case
    by (simp add: sorted_insert_sorted)
qed

lemma strictly_sorted_unique:
  fixes f :: "'a \<Rightarrow> int"
  assumes "sorted_wrt (\<lambda>a b. f a < f b) xs" and "sorted_wrt (\<lambda>a b. f a < f b) ys"
    and "set xs = set ys"
  shows "xs = ys"
proof -
  have sx: "sorted_wrt (<) (map f xs)" and sy: "sorted_wrt (<) (map f ys)"
    using assms(1,2) by (simp_all only: sorted_wrt_map)
  have "map f xs = map f ys"
  proof (rule sorted_distinct_set_unique)
    show "sorted (map f xs)" "distinct (map f xs)" "sorted (map f ys)" "distinct (map f ys)"
      using sx sy by (simp_all only: strict_sorted_iff)
    show "set (map f xs) = set (map f ys)"
      using assms(3) by simp
  qed
  moreover have "inj_on f (set xs \<union> set ys)"
  proof -
    have "distinct (map f xs)"
      using sx by (simp only: strict_sorted_iff)
    then have "inj_on f (set xs)"
      by (simp only: distinct_map)
    then show ?thesis
      using assms(3) by simp
  qed
  ultimately show ?thesis
    by (rule map_inj_on)
qed

subsection \<open>Reductions and groupings\<close>

lemma reduce_cases:
  assumes "\<And>acc x. f acc x = (if ok x then Inr (g acc x) else Inl TypeError)"
  shows "reduce f xs acc = (if \<forall>x\<in>set xs. ok x then Inr (foldl g acc xs) else Inl TypeError)"
  by (induction xs arbitrary: acc) (auto simp: assms)

lemma group_lookup:
  "map_of (foldl (group_step key init upd) [] xs) k =
     (case filter (\<lambda>x. key x = k) xs of
        [] \<Rightarrow> None
      | y # ys \<Rightarrow> Some (foldl (\<lambda>b x. upd x b) (init y) (y # ys)))"
proof (induction xs rule: rev_induct)
  case Nil
  then show ?case by simp
next
  case (snoc x xs)
  show ?case
  proof (cases "key x = k")
    case True
    with snoc show ?thesis
      by (auto simp: group_step_def update_conv' split: list.splits)
  next
    case False
    with snoc show ?thesis
      by (auto simp: group_step_def update_conv' split: list.splits)
  qed
qed

lemma group_keys: "fst ` set (foldl (group_step key init upd) [] xs) = key ` set xs"
  by (induction xs rule: rev_induct) (auto simp: group_step_def dom_update)

lemma group_distinct: "distinct (map fst (foldl (group_step key init upd) [] xs))"
  by (induction xs rule: rev_induct) (auto simp: group_step_def distinct_update)

lemma group_entry:
  assumes "(k, b) \<in> set (foldl (group_step key init upd) [] xs)"
  obtains y ys where "filter (\<lambda>x. key x = k) xs = y # ys"
    and "b = foldl (\<lambda>b x. upd x b) (init y) (y # ys)"
proof -
  have "map_of (foldl (group_step key init upd) [] xs) k = Some b"
    using assms by (simp add: group_distinct)
  then show thesis
    using that by (auto simp: group_lookup split: list.splits)
qed



lemma alist_values_mset_cong:
  assumes "distinct (map fst al)" and "distinct (map fst al')"
    and "fst ` set al = fst ` set al'"
    and "\<And>k v v'. map_of al k = Some v \<Longrightarrow> map_of al' k = Some v' \<Longrightarrow> f v = g v'"
  shows "mset (map (\<lambda>p. f (snd p)) al) = mset (map (\<lambda>p. g (snd p)) al')"
proof -
  let ?F = "\<lambda>k. f (the (map_of al k))" and ?G = "\<lambda>k. g (the (map_of al' k))"
  have a: "map (\<lambda>p. f (snd p)) al = map ?F (map fst al)"
    using assms(1) by (auto simp: comp_def)
  have b: "map (\<lambda>p. g (snd p)) al' = map ?G (map fst al')"
    using assms(2) by (auto simp: comp_def)
  have keys: "mset (map fst al) = mset (map fst al')"
    using assms(1,2,3) by (metis set_eq_iff_mset_eq_distinct set_map)
  have mid: "image_mset ?F (mset (map fst al)) = image_mset ?G (mset (map fst al))"
  proof (rule image_mset_cong)
    fix k assume "k \<in># mset (map fst al)"
    then have "k \<in> fst ` set al" by simp
    with assms(3) have "k \<in> fst ` set al'" by simp
    with \<open>k \<in> fst ` set al\<close> obtain v v' where "map_of al k = Some v" "map_of al' k = Some v'"
      by (metis domD dom_map_of_conv_image_fst)
    with assms(4) show "f (the (map_of al k)) = g (the (map_of al' k))" by simp
  qed
  have "mset (map (\<lambda>p. f (snd p)) al) = mset (map ?F (map fst al))"
    by (simp only: a)
  also have "\<dots> = image_mset ?F (mset (map fst al))"
    by (rule mset_map)
  also have "\<dots> = image_mset ?G (mset (map fst al'))"
    using mid by (simp only: keys)
  also have "\<dots> = mset (map ?G (map fst al'))"
    by (rule mset_map[symmetric])
  also have "\<dots> = mset (map (\<lambda>p. g (snd p)) al')"
    by (simp only: b)
  finally show ?thesis .
qed


lemma perm_length_filter:
  assumes "mset xs = mset ys"
  shows "length (filter P xs) = length (filter P ys)"
proof -
  have "mset (filter P xs) = mset (filter P ys)"
    using assms by (simp only: mset_filter)
  then show ?thesis by (rule mset_eq_length)
qed

lemma mset_map_inj:
  assumes "mset (map f xs) = mset (map f ys)" and "inj_on f (set xs \<union> set ys)"
  shows "mset xs = mset ys"
proof -
  have "image_mset f (mset xs) = image_mset f (mset ys) + {#}"
    using assms(1) by simp
  moreover have "inj_on f (set_mset (mset xs) \<union> set_mset (mset ys))"
    using assms(2) by simp
  ultimately obtain C where "mset xs = mset ys + C" and "{#} = image_mset f C"
    by (blast dest: image_mset_eq_image_mset_plusD)
  then show ?thesis by simp
qed

lemma foldl_skip:
  "foldl (\<lambda>acc x. if skip x then acc else g acc x) a xs = foldl g a (filter (\<lambda>x. \<not> skip x) xs)"
  by (induction xs arbitrary: a) auto

section \<open>The reductions as groupings\<close>

subsection \<open>Counters\<close>

lemma inherited_proto: "inherited ''__proto__''"
  by (simp add: inherited_def object_prototype_names_def)


lemma count_key_group:
  "count_key acc k =
     (if k = ''__proto__'' then acc else group_step (\<lambda>k. k) cell_init cell_upd acc k)"
  by (auto simp: count_key_def obj_put_def obj_get_def group_step_def cell_init_def cell_upd_def
      split: option.splits)

lemma counters_group:
  "counters ks =
     foldl (group_step (\<lambda>k. k) cell_init cell_upd) [] (filter (\<lambda>k. k \<noteq> ''__proto__'') ks)"
proof -
  have eq: "count_key = (\<lambda>acc k. if k = ''__proto__'' then acc
                             else group_step (\<lambda>k. k) cell_init cell_upd acc k)"
    by (simp add: fun_eq_iff count_key_group)
  show ?thesis
    unfolding counters_def eq foldl_skip by simp
qed

lemma bump_fold:
  "foldl (\<lambda>b x. cell_upd x b) (Count n) ys = Count (n + length ys)"
  "foldl (\<lambda>b x. cell_upd x b) (Spoiled k n) ys = Spoiled k (n + length ys)"
  by (induction ys arbitrary: n) (auto simp: cell_upd_def)

lemma cell_group_lookup:
  "map_of (foldl (group_step (\<lambda>k. k) cell_init cell_upd) [] xs) k =
     (if k \<in> set xs
      then Some (if inherited k then Spoiled k (length (filter (\<lambda>x. x = k) xs))
                 else Count (length (filter (\<lambda>x. x = k) xs)))
      else None)"
proof (cases "filter (\<lambda>x. x = k) xs")
  case Nil
  then have "k \<notin> set xs"
    by (auto simp: filter_empty_conv)
  with Nil show ?thesis
    by (simp add: group_lookup)
next
  case (Cons y ys)
  then have "y \<in> set (filter (\<lambda>x. x = k) xs)" by simp
  then have y: "y = k" and mem: "k \<in> set xs" by auto
  have "foldl (\<lambda>b x. cell_upd x b) (cell_init k) (y # ys) =
      (if inherited k then Spoiled k (length (y # ys)) else Count (length (y # ys)))"
    unfolding cell_init_def by (cases "inherited k") (simp_all only: bump_fold if_True if_False add_0)
  then show ?thesis
    using Cons y mem by (simp add: group_lookup)
qed

lemma counters_lookup:
  "map_of (counters ks) k =
     (if k \<in> set ks \<and> k \<noteq> ''__proto__'' then Some (tally ks k) else None)"
proof -
  have "k \<noteq> ''__proto__'' \<Longrightarrow>
      filter (\<lambda>x. x = k) (filter (\<lambda>k. k \<noteq> ''__proto__'') ks) = filter (\<lambda>x. x = k) ks"
    by (induction ks) auto
  then show ?thesis
    unfolding counters_group cell_group_lookup tally_def by auto
qed

lemma counters_distinct: "distinct (map fst (counters ks))"
  unfolding counters_group by (rule group_distinct)

lemma counters_keys: "fst ` set (counters ks) = set ks - {''__proto__''}"
  unfolding counters_group group_keys by auto

lemma counters_mset:
  "mset (counters ks) =
     mset (map (\<lambda>k. (k, tally ks k)) (filter (\<lambda>k. k \<noteq> ''__proto__'') (remdups ks)))"
proof -
  let ?al = "map (\<lambda>k. (k, tally ks k)) (filter (\<lambda>k. k \<noteq> ''__proto__'') (remdups ks))"
  have d: "distinct (map fst ?al)"
    by (simp add: comp_def)
  have "map_of (counters ks) k = map_of ?al k" for k
    unfolding counters_lookup by (simp add: map_of_map_restrict restrict_map_def)
  then have "map_of (counters ks) = map_of ?al"
    by (rule ext)
  with counters_distinct d have "set (counters ks) = set ?al"
    by (simp only: map_of_inject_set)
  moreover have "distinct (counters ks)" "distinct ?al"
    using counters_distinct[of ks] d by (simp_all only: distinct_map)
  ultimately show ?thesis
    by (simp only: set_eq_iff_mset_eq_distinct)
qed

lemma counters_perm:
  assumes "mset ks = mset ks'"
  shows "map_of (counters ks) = map_of (counters ks')"
    and "mset (object_values (counters ks)) = mset (object_values (counters ks'))"
proof -
  from assms have s: "set ks = set ks'"
    by (rule mset_eq_setD)
  have t: "tally ks k = tally ks' k" for k
    unfolding tally_def using perm_length_filter[OF assms, of "\<lambda>x. x = k"] by simp
  show m: "map_of (counters ks) = map_of (counters ks')"
    by (rule ext) (simp add: counters_lookup s t)
  have "set (counters ks) = set (counters ks')"
    using m counters_distinct by (simp only: map_of_inject_set)
  moreover have "distinct (counters ks)" "distinct (counters ks')"
    using counters_distinct by (simp_all only: distinct_map)
  ultimately have "mset (counters ks) = mset (counters ks')"
    by (simp only: set_eq_iff_mset_eq_distinct)
  then show "mset (object_values (counters ks)) = mset (object_values (counters ks'))"
    by (simp only: mset_object_values mset_map)
qed


subsection \<open>The reductions of \<open>calculateMetrics\<close>\<close>

lemma reduce_cases_inv:
  assumes "\<And>acc x. I acc \<Longrightarrow> f acc x = (if ok x then Inr (g acc x) else Inl TypeError)"
    and "\<And>acc x. I acc \<Longrightarrow> ok x \<Longrightarrow> I (g acc x)"
    and "I acc"
  shows "reduce f xs acc = (if \<forall>x\<in>set xs. ok x then Inr (foldl g acc xs) else Inl TypeError)"
  using assms(3) by (induction xs arbitrary: acc) (auto simp: assms(1,2))

lemma foldl_cong_inv:
  assumes "\<And>acc x. I acc \<Longrightarrow> f acc x = g acc x"
    and "\<And>acc x. I acc \<Longrightarrow> I (g acc x)"
    and "I acc"
  shows "foldl f acc xs = foldl g acc xs"
  using assms(3) by (induction xs arbitrary: acc) (auto simp: assms(1,2))

lemma plain_keys_Nil: "plain_keys []"
  by (simp add: plain_keys_def)

lemma plain_keys_step:
  "plain_keys acc \<Longrightarrow> \<not> inherited (key x) \<Longrightarrow> plain_keys (group_step key init upd acc x)"
  by (auto simp: plain_keys_def group_step_def dom_update)

lemma obj_get_plain_keys:
  "plain_keys ob \<Longrightarrow>
     obj_get ob k =
       (if inherited k then Inherited
        else case map_of ob k of None \<Rightarrow> Absent | Some v \<Rightarrow> Own v)"
proof -
  assume p: "plain_keys ob"
  have "map_of ob k = None" if "inherited k"
  proof (rule ccontr)
    assume "map_of ob k \<noteq> None"
    then obtain v where "map_of ob k = Some v" by auto
    then have "(k, v) \<in> set ob" by (rule map_of_SomeD)
    then have "k \<in> fst ` set ob" by force
    with p that show False by (auto simp: plain_keys_def)
  qed
  then show ?thesis
    by (simp add: obj_get_def split: option.splits)
qed

lemma lowered_device_cases:
  "lowered_device s =
     (if device_ok s
      then Inr (case device_type s of JStr t \<Rightarrow> JStr (toLowerCase t) | _ \<Rightarrow> JUndefined)
      else Inl TypeError)"
  by (simp add: lowered_device_def device_ok_def split: jsval.splits)

lemma count_device_cases:
  "count_device acc s =
     (if device_ok s then Inr (count_key acc (device_key s)) else Inl TypeError)"
  by (auto simp: count_device_def lowered_device_cases device_key_def js_or_def Let_def
      split: jsval.splits)

lemma device_counts:
  "reduce count_device sessions [] =
     (if \<forall>s\<in>set sessions. device_ok s then Inr (counters (map device_key sessions))
      else Inl TypeError)"
proof -
  have "reduce count_device sessions [] =
     (if \<forall>s\<in>set sessions. device_ok s
      then Inr (foldl (\<lambda>acc s. count_key acc (device_key s)) [] sessions)
      else Inl TypeError)"
    by (rule reduce_cases) (rule count_device_cases)
  then show ?thesis
    by (simp add: counters_def foldl_map)
qed

lemma sessionPageviewCounts_counters:
  "sessionPageviewCounts pageviews = counters (map pv_key pageviews)"
proof -
  have "count_pageview = (\<lambda>acc pv. count_key acc (pv_key pv))"
    by (simp add: fun_eq_iff count_pageview_def pv_key_def)
  then show ?thesis
    by (simp add: sessionPageviewCounts_def counters_def foldl_map)
qed

lemma add_source_cases:
  assumes "plain_keys acc"
  shows "add_source acc s =
     (if \<not> inherited (source_key s)
      then Inr (group_step source_key source_init source_upd acc s) else Inl TypeError)"
  by (simp add: add_source_def obj_get_plain_keys[OF assms] group_step_def source_key_def
      source_init_def source_upd_def Let_def split: option.splits)

lemma trafficBySource_cases:
  "trafficBySource sessions =
     (if \<forall>s\<in>set sessions. \<not> inherited (source_key s) then Inr (source_groups sessions)
      else Inl TypeError)"
  unfolding trafficBySource_def source_groups_def
  by (rule reduce_cases_inv[where I=plain_keys])
     (simp_all add: add_source_cases plain_keys_step plain_keys_Nil)

lemma add_campaign_cases:
  assumes "plain_keys acc"
  shows "add_campaign acc s =
     (if inherited (campaign_key s) then acc
      else group_step campaign_key campaign_init campaign_upd acc s)"
  by (simp add: add_campaign_def obj_get_plain_keys[OF assms] group_step_def campaign_key_def
      campaign_init_def campaign_upd_def Let_def split: option.splits)

lemma trafficByCampaign_groups:
  "trafficByCampaign sessions =
     campaign_groups (filter (\<lambda>s. \<not> inherited (campaign_key s)) sessions)"
proof -
  have "foldl add_campaign [] sessions =
      foldl (\<lambda>acc s. if inherited (campaign_key s) then acc
                      else group_step campaign_key campaign_init campaign_upd acc s) [] sessions"
    by (rule foldl_cong_inv[where I=plain_keys])
       (simp_all add: add_campaign_cases plain_keys_step plain_keys_Nil)
  then show ?thesis
    unfolding trafficByCampaign_def campaign_groups_def foldl_skip by simp
qed

lemma add_date_cases:
  assumes "plain_keys acc"
  shows "add_date acc s =
     (if date_ok s \<and> device_ok s
      then Inr (if inherited (date_key s) then acc
                else group_step date_key day_init day_upd acc s)
      else Inl TypeError)"
  by (auto simp: add_date_def date_part_def date_ok_def date_key_def lowered_device_cases
      obj_get_plain_keys[OF assms] group_step_def day_init_def day_upd_def device_is_def Let_def
      split: jsval.splits option.splits)

lemma trafficByDate_cases:
  "trafficByDate sessions =
     (if \<forall>s\<in>set sessions. date_ok s \<and> device_ok s
      then Inr (day_groups (filter (\<lambda>s. \<not> inherited (date_key s)) sessions))
      else Inl TypeError)"
proof -
  have "reduce add_date sessions [] =
     (if \<forall>s\<in>set sessions. date_ok s \<and> device_ok s
      then Inr (foldl (\<lambda>acc s. if inherited (date_key s) then acc
                                else group_step date_key day_init day_upd acc s) [] sessions)
      else Inl TypeError)"
    by (rule reduce_cases_inv[where I=plain_keys])
       (simp_all add: add_date_cases plain_keys_step plain_keys_Nil)
  then show ?thesis
    unfolding trafficByDate_def day_groups_def foldl_skip by simp
qed

lemma calculateMetrics_throws:
  "\<not> returns_ok sessions \<Longrightarrow> calculateMetrics date_parse sessions pageviews = Inl TypeError"
  unfolding calculateMetrics_def device_counts trafficBySource_cases trafficByDate_cases
    returns_ok_def
  by auto

lemma calculateMetrics_returns:
  assumes "returns_ok sessions"
  obtains m where
    "calculateMetrics date_parse sessions pageviews = Inr m"
    "totalSessions m = length sessions"
    "uniqueUsers m = length (remdups (map user_id sessions))"
    "bounceRate m =
       (if length sessions > 0
        then real (bouncedSessions pageviews) / real (length sessions) * 100 else 0)"
    "avgPagesPerSession m =
       (if length sessions > 0 then real (length pageviews) / real (length sessions) else 0)"
    "deviceCounts m = counters (map device_key sessions)"
    "newSessions m = length (filter (\<lambda>s. is_repeat_session s = JStr ''0'') sessions)"
    "returningSessions m = length (filter (\<lambda>s. is_repeat_session s = JStr ''1'') sessions)"
    "sourceData m =
       map (\<lambda>item. \<lparr>se_source = sb_source item, se_sessions = sb_sessions item,
                      se_users = length (sb_users item)\<rparr>)
           (object_values (source_groups sessions))"
    "campaignData m =
       object_values (campaign_groups (filter (\<lambda>s. \<not> inherited (campaign_key s)) sessions))"
    "timelineData m =
       js_sort (date_diff date_parse)
         (object_values (day_groups (filter (\<lambda>s. \<not> inherited (date_key s)) sessions)))"
    "topLandingPages m =
       js_sort by_sessions_desc
         (map (\<lambda>(url, count). \<lparr>le_url = url, le_sessions = count\<rparr>)
              (object_entries (la_pages (landingPages pageviews))))"
proof -
  from assms have a: "\<forall>s\<in>set sessions. device_ok s"
    and b: "\<forall>s\<in>set sessions. \<not> inherited (source_key s)"
    and c: "\<forall>s\<in>set sessions. date_ok s \<and> device_ok s"
    by (simp_all add: returns_ok_def)
  let ?m = "\<lparr>totalSessions = length sessions,
      uniqueUsers = length (remdups (map user_id sessions)),
      bounceRate =
        (if length sessions > 0
         then real (bouncedSessions pageviews) / real (length sessions) * 100 else 0),
      avgPagesPerSession =
        (if length sessions > 0 then real (length pageviews) / real (length sessions) else 0),
      deviceCounts = counters (map device_key sessions),
      newSessions = length (filter (\<lambda>s. is_repeat_session s = JStr ''0'') sessions),
      returningSessions = length (filter (\<lambda>s. is_repeat_session s = JStr ''1'') sessions),
      sourceData =
        map (\<lambda>item. \<lparr>se_source = sb_source item, se_sessions = sb_sessions item,
                       se_users = length (sb_users item)\<rparr>)
            (object_values (source_groups sessions)),
      campaignData =
        object_values (campaign_groups (filter (\<lambda>s. \<not> inherited (campaign_key s)) sessions)),
      timelineData =
        js_sort (date_diff date_parse)
          (object_values (day_groups (filter (\<lambda>s. \<not> inherited (date_key s)) sessions))),
      topLandingPages =
        js_sort by_sessions_desc
          (map (\<lambda>(url, count). \<lparr>le_url = url, le_sessions = count\<rparr>)
               (object_entries (la_pages (landingPages pageviews))))\<rparr>"
  have "calculateMetrics date_parse sessions pageviews = Inr ?m"
    by (simp add: calculateMetrics_def device_counts trafficBySource_cases
        trafficByDate_cases trafficByCampaign_groups a b c)
  then show thesis
    by (rule that) simp_all
qed


subsection \<open>Bounced sessions\<close>

lemma bouncedSessions_count:
  "bouncedSessions pageviews =
     length (filter (\<lambda>k. \<not> inherited k \<and> pageview_count pageviews k = 1)
               (remdups (map pv_key pageviews)))"
proof -
  let ?ks = "map pv_key pageviews"
  let ?L = "filter (\<lambda>k. k \<noteq> ''__proto__'') (remdups ?ks)"
  have "mset (object_values (counters ?ks)) = mset (map (tally ?ks) ?L)"
    by (simp only: mset_object_values mset_map counters_mset multiset.map_comp comp_def snd_conv)
  then have "length (filter (\<lambda>c. cell_value c = JNum 1) (object_values (counters ?ks))) =
      length (filter (\<lambda>c. cell_value c = JNum 1) (map (tally ?ks) ?L))"
    by (rule perm_length_filter)
  also have "\<dots> = length (filter (\<lambda>k. k \<noteq> ''__proto__'' \<and> cell_value (tally ?ks k) = JNum 1)
      (remdups ?ks))"
    by (simp add: filter_map comp_def conj_commute)
  also have "(\<lambda>k. k \<noteq> ''__proto__'' \<and> cell_value (tally ?ks k) = JNum 1) =
      (\<lambda>k. \<not> inherited k \<and> pageview_count pageviews k = 1)"
    using inherited_proto
    by (auto simp: fun_eq_iff tally_def pageview_count_def filter_map comp_def)
  finally show ?thesis
    unfolding bouncedSessions_def sessionPageviewCounts_counters .
qed

subsection \<open>Buckets by source\<close>

lemma source_fold:
  "sb_source (foldl (\<lambda>b s. source_upd s b) b0 ys) = sb_source b0"
  "sb_sessions (foldl (\<lambda>b s. source_upd s b) b0 ys) = sb_sessions b0 + length ys"
  "set (sb_users (foldl (\<lambda>b s. source_upd s b) b0 ys)) = set (sb_users b0) \<union> user_id ` set ys"
  "distinct (sb_users b0) \<Longrightarrow> distinct (sb_users (foldl (\<lambda>b s. source_upd s b) b0 ys))"
  by (induction ys arbitrary: b0) (auto simp: source_upd_def)

lemma source_bucket:
  assumes "(k, b) \<in> set (source_groups sessions)"
  shows "to_key (sb_source b) = k"
    and "sb_sessions b = length (filter (\<lambda>s. source_key s = k) sessions)"
    and "length (sb_users b) = card (user_id ` {s \<in> set sessions. source_key s = k})"
proof -
  from assms obtain y ys where
    f: "filter (\<lambda>s. source_key s = k) sessions = y # ys" and
    b: "b = foldl (\<lambda>b s. source_upd s b) (source_init y) (y # ys)"
    unfolding source_groups_def by (rule group_entry)
  from f have "y \<in> set (filter (\<lambda>s. source_key s = k) sessions)" by simp
  then have ky: "source_key y = k" by simp
  show "to_key (sb_source b) = k"
    unfolding b source_fold using ky by (simp add: source_init_def source_key_def)
  show "sb_sessions b = length (filter (\<lambda>s. source_key s = k) sessions)"
    unfolding b source_fold f by (simp add: source_init_def)
  have d: "distinct (sb_users b)"
    unfolding b by (rule source_fold(4)) (simp add: source_init_def)
  have "set (sb_users b) = user_id ` set (filter (\<lambda>s. source_key s = k) sessions)"
    unfolding b source_fold f by (simp add: source_init_def)
  then have "set (sb_users b) = user_id ` {s \<in> set sessions. source_key s = k}"
    by simp
  with d show "length (sb_users b) = card (user_id ` {s \<in> set sessions. source_key s = k})"
    by (metis distinct_card)
qed

subsection \<open>Buckets by date\<close>

lemma device_is_exclusive: "device_is ''desktop'' s \<Longrightarrow> \<not> device_is ''mobile'' s"
  by (auto simp: device_is_def split: jsval.splits)

lemma day_fold:
  "te_date (foldl (\<lambda>b s. day_upd s b) b0 ys) = te_date b0"
  "te_sessions (foldl (\<lambda>b s. day_upd s b) b0 ys) = te_sessions b0 + length ys"
  "te_desktop (foldl (\<lambda>b s. day_upd s b) b0 ys) =
     te_desktop b0 + length (filter (device_is ''desktop'') ys)"
  "te_mobile (foldl (\<lambda>b s. day_upd s b) b0 ys) =
     te_mobile b0 + length (filter (device_is ''mobile'') ys)"
  by (induction ys arbitrary: b0) (auto simp: day_upd_def dest: device_is_exclusive)

lemma day_bucket:
  assumes "(k, b) \<in> set (day_groups sessions)"
  shows "b = day_entry sessions k"
proof -
  from assms obtain y ys where
    f: "filter (\<lambda>s. date_key s = k) sessions = y # ys" and
    b: "b = foldl (\<lambda>b s. day_upd s b) (day_init y) (y # ys)"
    unfolding day_groups_def by (rule group_entry)
  from f have "y \<in> set (filter (\<lambda>s. date_key s = k) sessions)" by simp
  then have ky: "date_key y = k" by simp
  have ff: "filter P (y # ys) = filter (\<lambda>s. date_key s = k \<and> P s) sessions" for P
    unfolding f[symmetric] by (simp only: filter_filter)
  have d: "te_date b = k"
    unfolding b day_fold by (simp add: day_init_def ky)
  have n: "te_sessions b = length (filter (\<lambda>s. date_key s = k) sessions)"
    unfolding b day_fold f by (simp add: day_init_def)
  have desk: "te_desktop b =
      length (filter (\<lambda>s. date_key s = k \<and> device_is ''desktop'' s) sessions)"
    unfolding b day_fold ff[symmetric] by (simp add: day_init_def)
  have mob: "te_mobile b =
      length (filter (\<lambda>s. date_key s = k \<and> device_is ''mobile'' s) sessions)"
    unfolding b day_fold ff[symmetric] by (simp add: day_init_def)
  show ?thesis
    unfolding day_entry_def by (rule timeline_entry.equality) (simp_all add: d n desk mob)
qed

lemma day_entry_plain:
  assumes "\<not> inherited d"
  shows "day_entry (filter (\<lambda>s. \<not> inherited (date_key s)) sessions) d = day_entry sessions d"
proof -
  have "filter (\<lambda>s. date_key s = d \<and> P s) (filter (\<lambda>s. \<not> inherited (date_key s)) sessions) =
      filter (\<lambda>s. date_key s = d \<and> P s) sessions" for P
    unfolding filter_filter by (rule filter_cong[OF refl]) (use assms in auto)
  from this[of "\<lambda>s. True"] this[of "device_is ''desktop''"] this[of "device_is ''mobile''"]
  show ?thesis
    unfolding day_entry_def by simp
qed

lemma timeline_values:
  fixes sessions :: "session list"
  defines "by_date \<equiv> day_groups (filter (\<lambda>s. \<not> inherited (date_key s)) sessions)"
  shows "set (object_values by_date) = day_entry sessions ` timeline_dates sessions"
    and "distinct (map te_date (object_values by_date))"
    and "te_date ` set (object_values by_date) = timeline_dates sessions"
proof -
  let ?xs = "filter (\<lambda>s. \<not> inherited (date_key s)) sessions"
  have keys: "fst ` set by_date = timeline_dates sessions"
    unfolding by_date_def day_groups_def group_keys timeline_dates_def by auto
  have val: "snd p = day_entry sessions (fst p)" if "p \<in> set by_date" for p
  proof -
    from that have "fst p \<in> timeline_dates sessions"
      unfolding keys[symmetric] by simp
    then have "\<not> inherited (fst p)"
      by (simp add: timeline_dates_def)
    moreover have "snd p = day_entry ?xs (fst p)"
      using that day_bucket[of "fst p" "snd p" ?xs] unfolding by_date_def by simp
    ultimately show ?thesis
      by (simp add: day_entry_plain)
  qed
  have "map snd (object_entries by_date) =
      map (\<lambda>p. day_entry sessions (fst p)) (object_entries by_date)"
    by (rule map_cong[OF refl]) (simp add: set_object_entries val)
  then have ov: "object_values by_date =
      map (day_entry sessions) (map fst (object_entries by_date))"
    by (simp add: object_values_def comp_def)
  have "set (map (day_entry sessions) (map fst (object_entries by_date))) =
        day_entry sessions ` fst ` set by_date"
    by (simp only: set_map set_object_entries)
  then show s: "set (object_values by_date) = day_entry sessions ` timeline_dates sessions"
    unfolding ov keys .
  have "map te_date (object_values by_date) = map fst (object_entries by_date)"
    unfolding ov by (simp add: comp_def day_entry_def)
  then show "distinct (map te_date (object_values by_date))"
    unfolding by_date_def day_groups_def by (simp add: distinct_object_entries group_distinct)
  show "te_date ` set (object_values by_date) = timeline_dates sessions"
    unfolding s by (simp add: image_image day_entry_def)
qed

lemma timeline_sorted_aux:
  assumes valid: "\<forall>e\<in>set l. date_parse (te_date e) \<noteq> None"
    and dist: "distinct (map (\<lambda>e. date_parse (te_date e)) l)"
  shows "sorted_wrt (date_lt date_parse) (js_sort (date_diff date_parse) l)"
proof -
  let ?f = "\<lambda>e. the (date_parse (te_date e))"
  let ?r = "js_sort (date_diff date_parse) l"
  have cmp: "(sort_compare (date_diff date_parse) x y \<le> 0) = (?f x \<le> ?f y)"
    if "x \<in> set l" "y \<in> set l" for x y
    using that valid by (auto simp: sort_compare_def date_diff_def split: option.splits)
  have "sorted (map ?f ?r)"
    using cmp by (rule sorted_js_sort)
  moreover have "distinct (map ?f ?r)"
  proof -
    have "mset (map ?f ?r) = mset (map ?f l)"
      by (simp only: mset_map mset_js_sort)
    moreover have "map ?f l = map the (map (\<lambda>e. date_parse (te_date e)) l)"
      by simp
    moreover have "distinct (map the (map (\<lambda>e. date_parse (te_date e)) l))"
    proof -
      have "inj_on the (set (map (\<lambda>e. date_parse (te_date e)) l))"
      proof (rule inj_onI)
        fix a b
        assume "a \<in> set (map (\<lambda>e. date_parse (te_date e)) l)"
          and "b \<in> set (map (\<lambda>e. date_parse (te_date e)) l)" and "the a = the b"
        moreover from this(1,2) valid have "a \<noteq> None" "b \<noteq> None" by auto
        ultimately show "a = b" by auto
      qed
      with dist show ?thesis by (simp only: distinct_map)
    qed
    ultimately show ?thesis
      by (metis mset_eq_imp_distinct_iff)
  qed
  ultimately have "sorted_wrt (<) (map ?f ?r)"
    by (simp only: strict_sorted_iff)
  then have "sorted_wrt (\<lambda>a b. ?f a < ?f b) ?r"
    by (simp only: sorted_wrt_map)
  moreover have "date_lt date_parse a b" if "a \<in> set ?r" "b \<in> set ?r" "?f a < ?f b" for a b
    using that valid by (auto simp: date_lt_def set_js_sort split: option.splits)
  ultimately show ?thesis
    by (rule sorted_wrt_mono_rel[rotated])
qed

lemma timeline_sorted_list:
  assumes valid: "\<forall>d\<in>timeline_dates sessions. date_parse d \<noteq> None"
    and inj: "inj_on date_parse (timeline_dates sessions)"
  shows "sorted_wrt (date_lt date_parse)
           (js_sort (date_diff date_parse)
              (object_values (day_groups (filter (\<lambda>s. \<not> inherited (date_key s)) sessions))))"
proof -
  let ?l = "object_values (day_groups (filter (\<lambda>s. \<not> inherited (date_key s)) sessions))"
  have dist_l: "distinct (map te_date ?l)"
    and dates: "te_date ` set ?l = timeline_dates sessions"
    by (rule timeline_values)+
  have v: "\<forall>e\<in>set ?l. date_parse (te_date e) \<noteq> None"
    using valid dates by (metis (no_types, lifting) image_iff)
  have "inj_on date_parse (set (map te_date ?l))"
    using inj dates by simp
  with dist_l have "distinct (map date_parse (map te_date ?l))"
    by (simp only: distinct_map)
  then have d: "distinct (map (\<lambda>e. date_parse (te_date e)) ?l)"
    by (simp add: comp_def)
  from v d show ?thesis
    by (rule timeline_sorted_aux)
qed

subsection \<open>Landing pages\<close>








subsection \<open>Buckets by campaign\<close>

lemma campaign_fold:
  "ce_campaign (foldl (\<lambda>b s. campaign_upd s b) b0 ys) = ce_campaign b0"
  "ce_sessions (foldl (\<lambda>b s. campaign_upd s b) b0 ys) = ce_sessions b0 + length ys"
  by (induction ys arbitrary: b0) (auto simp: campaign_upd_def)

lemma campaign_bucket:
  assumes "(k, b) \<in> set (campaign_groups sessions)"
  shows "to_key (ce_campaign b) = k"
    and "ce_sessions b = length (filter (\<lambda>s. campaign_key s = k) sessions)"
proof -
  from assms obtain y ys where
    f: "filter (\<lambda>s. campaign_key s = k) sessions = y # ys" and
    b: "b = foldl (\<lambda>b s. campaign_upd s b) (campaign_init y) (y # ys)"
    unfolding campaign_groups_def by (rule group_entry)
  from f have "y \<in> set (filter (\<lambda>s. campaign_key s = k) sessions)" by simp
  then have ky: "campaign_key y = k" by simp
  show "to_key (ce_campaign b) = k"
    unfolding b campaign_fold using ky by (simp add: campaign_init_def campaign_key_def)
  show "ce_sessions b = length (filter (\<lambda>s. campaign_key s = k) sessions)"
    unfolding b campaign_fold f by (simp add: campaign_init_def)
qed

subsection \<open>Reordering the input\<close>

lemma perm_deviceCounts:
  assumes "mset sessions' = mset sessions"
  shows "map_of (counters (map device_key sessions')) = map_of (counters (map device_key sessions))"
proof (rule counters_perm)
  show "mset (map device_key sessions') = mset (map device_key sessions)"
    using assms by simp
qed

lemma perm_sourceData:
  assumes "mset sessions' = mset sessions"
  shows "mset (map (\<lambda>b. (to_key (sb_source b), sb_sessions b, length (sb_users b)))
                 (object_values (source_groups sessions'))) =
         mset (map (\<lambda>b. (to_key (sb_source b), sb_sessions b, length (sb_users b)))
                 (object_values (source_groups sessions)))"
proof -
  let ?F = "\<lambda>b. (to_key (sb_source b), sb_sessions b, length (sb_users b))"
  have sets: "set sessions' = set sessions"
    using assms by (rule mset_eq_setD)
  have ov: "mset (map ?F (object_values al)) = mset (map (\<lambda>p. ?F (snd p)) al)"
    for al :: "source_bucket obj"
    by (simp only: mset_map mset_object_values multiset.map_comp comp_def)
  have "mset (map (\<lambda>p. ?F (snd p)) (source_groups sessions')) =
        mset (map (\<lambda>p. ?F (snd p)) (source_groups sessions))"
  proof (rule alist_values_mset_cong)
    show "distinct (map fst (source_groups sessions'))"
      unfolding source_groups_def by (rule group_distinct)
    show "distinct (map fst (source_groups sessions))"
      unfolding source_groups_def by (rule group_distinct)
    show "fst ` set (source_groups sessions') = fst ` set (source_groups sessions)"
      unfolding source_groups_def group_keys sets ..
    fix k v v'
    assume "map_of (source_groups sessions') k = Some v"
      and "map_of (source_groups sessions) k = Some v'"
    then have v: "(k, v) \<in> set (source_groups sessions')"
      and v': "(k, v') \<in> set (source_groups sessions)"
      by (auto dest: map_of_SomeD)
    show "?F v = ?F v'"
      using source_bucket[OF v] source_bucket[OF v'] sets
        perm_length_filter[OF assms, of "\<lambda>s. source_key s = k"]
      by simp
  qed
  then show ?thesis
    by (simp only: ov)
qed

lemma perm_campaignData:
  assumes "mset sessions' = mset sessions"
  shows "mset (map campaign_row (object_values (campaign_groups sessions'))) =
         mset (map campaign_row (object_values (campaign_groups sessions)))"
proof -
  have sets: "set sessions' = set sessions"
    using assms by (rule mset_eq_setD)
  have ov: "mset (map campaign_row (object_values al)) = mset (map (\<lambda>p. campaign_row (snd p)) al)"
    for al :: "campaign_entry obj"
    by (simp only: mset_map mset_object_values multiset.map_comp comp_def)
  have "mset (map (\<lambda>p. campaign_row (snd p)) (campaign_groups sessions')) =
        mset (map (\<lambda>p. campaign_row (snd p)) (campaign_groups sessions))"
  proof (rule alist_values_mset_cong)
    show "distinct (map fst (campaign_groups sessions'))"
      unfolding campaign_groups_def by (rule group_distinct)
    show "distinct (map fst (campaign_groups sessions))"
      unfolding campaign_groups_def by (rule group_distinct)
    show "fst ` set (campaign_groups sessions') = fst ` set (campaign_groups sessions)"
      unfolding campaign_groups_def group_keys sets ..
    fix k v v'
    assume "map_of (campaign_groups sessions') k = Some v"
      and "map_of (campaign_groups sessions) k = Some v'"
    then have v: "(k, v) \<in> set (campaign_groups sessions')"
      and v': "(k, v') \<in> set (campaign_groups sessions)"
      by (auto dest: map_of_SomeD)
    show "campaign_row v = campaign_row v'"
      using campaign_bucket[OF v] campaign_bucket[OF v']
        perm_length_filter[OF assms, of "\<lambda>s. campaign_key s = k"]
      by (simp add: campaign_row_def)
  qed
  then show ?thesis
    by (simp only: ov)
qed

lemma perm_day_entry:
  assumes "mset sessions' = mset sessions"
  shows "day_entry sessions' = day_entry sessions"
  unfolding day_entry_def fun_eq_iff
  using perm_length_filter[OF assms] by simp

lemma perm_bouncedSessions:
  assumes "mset pageviews' = mset pageviews"
  shows "bouncedSessions pageviews' = bouncedSessions pageviews"
proof -
  have sets: "set pageviews' = set pageviews"
    using assms by (rule mset_eq_setD)
  have cnt: "pageview_count pageviews' = pageview_count pageviews"
    unfolding pageview_count_def fun_eq_iff using perm_length_filter[OF assms] by simp
  have "bouncedSessions pvs =
      card ({k. \<not> inherited k \<and> pageview_count pvs k = 1} \<inter> set (remdups (map pv_key pvs)))"
    for pvs
    unfolding bouncedSessions_count by (rule distinct_length_filter) simp
  then show ?thesis
    by (simp add: cnt sets)
qed

lemma text_label: "text_or_missing v \<Longrightarrow> js_or v (JStr d) = JStr (to_key (js_or v (JStr d)))"
  by (cases v) (auto simp: text_or_missing_def js_or_def)

lemma source_label:
  assumes "(k, b) \<in> set (source_groups sessions)"
  shows "\<exists>y\<in>set sessions. sb_source b = js_or (utm_source y) (JStr ''direct'')"
proof -
  from assms obtain y ys where
    f: "filter (\<lambda>s. source_key s = k) sessions = y # ys" and
    b: "b = foldl (\<lambda>b s. source_upd s b) (source_init y) (y # ys)"
    unfolding source_groups_def by (rule group_entry)
  from f have "y \<in> set (filter (\<lambda>s. source_key s = k) sessions)" by simp
  then have "y \<in> set sessions" by simp
  moreover have "sb_source b = js_or (utm_source y) (JStr ''direct'')"
    unfolding b source_fold by (simp add: source_init_def)
  ultimately show ?thesis by blast
qed

lemma campaign_label:
  assumes "(k, b) \<in> set (campaign_groups sessions)"
  shows "\<exists>y\<in>set sessions. ce_campaign b = js_or (utm_campaign y) (JStr ''none'')"
proof -
  from assms obtain y ys where
    f: "filter (\<lambda>s. campaign_key s = k) sessions = y # ys" and
    b: "b = foldl (\<lambda>b s. campaign_upd s b) (campaign_init y) (y # ys)"
    unfolding campaign_groups_def by (rule group_entry)
  from f have "y \<in> set (filter (\<lambda>s. campaign_key s = k) sessions)" by simp
  then have "y \<in> set sessions" by simp
  moreover have "ce_campaign b = js_or (utm_campaign y) (JStr ''none'')"
    unfolding b campaign_fold by (simp add: campaign_init_def)
  ultimately show ?thesis by blast
qed

lemma source_row_text:
  assumes "se_source e = JStr a" and "se_source e' = JStr a'" and "source_row e = source_row e'"
  shows "e = e'"
  using assms by (intro source_entry.equality) (simp_all add: source_row_def)

lemma campaign_row_text:
  assumes "ce_campaign e = JStr a" and "ce_campaign e' = JStr a'"
    and "campaign_row e = campaign_row e'"
  shows "e = e'"
  using assms by (intro campaign_entry.equality) (simp_all add: campaign_row_def)

lemma source_entries_text:
  assumes "\<forall>s\<in>set sessions. text_or_missing (utm_source s)"
    and "e \<in> set (map (\<lambda>item. \<lparr>se_source = sb_source item, se_sessions = sb_sessions item,
                        se_users = length (sb_users item)\<rparr>)
             (object_values (source_groups sessions)))"
  shows "\<exists>a. se_source e = JStr a"
proof -
  from assms(2) obtain p where p: "p \<in> set (object_entries (source_groups sessions))"
    and e: "se_source e = sb_source (snd p)"
    unfolding object_values_def by auto
  from p have "(fst p, snd p) \<in> set (source_groups sessions)"
    by (simp add: set_object_entries)
  then obtain y where "y \<in> set sessions"
    and "sb_source (snd p) = js_or (utm_source y) (JStr ''direct'')"
    using source_label by blast
  with assms(1) e show ?thesis
    by (metis text_label)
qed

lemma campaign_entries_text:
  assumes "\<forall>s\<in>set sessions. text_or_missing (utm_campaign s)"
    and "e \<in> set (object_values (campaign_groups sessions))"
  shows "\<exists>a. ce_campaign e = JStr a"
proof -
  from assms(2) obtain p where p: "p \<in> set (object_entries (campaign_groups sessions))"
    and e: "e = snd p"
    unfolding object_values_def by auto
  from p have "(fst p, snd p) \<in> set (campaign_groups sessions)"
    by (simp add: set_object_entries)
  then obtain y where "y \<in> set sessions"
    and "ce_campaign (snd p) = js_or (utm_campaign y) (JStr ''none'')"
    using campaign_label by blast
  with assms(1) e show ?thesis
    by (metis text_label)
qed

lemma perm_timeline_mset:
  assumes "mset sessions' = mset sessions"
  shows "mset (object_values (day_groups (filter (\<lambda>s. \<not> inherited (date_key s)) sessions'))) =
         mset (object_values (day_groups (filter (\<lambda>s. \<not> inherited (date_key s)) sessions)))"
    (is "mset ?l' = mset ?l")
proof -
  have sets: "set sessions' = set sessions"
    using assms by (rule mset_eq_setD)
  then have dates: "timeline_dates sessions' = timeline_dates sessions"
    by (simp add: timeline_dates_def)
  have "distinct (map te_date ?l)" "distinct (map te_date ?l')"
    by (rule timeline_values)+
  then have "distinct ?l" "distinct ?l'"
    by (simp_all add: distinct_map)
  moreover have "set ?l' = set ?l"
    unfolding timeline_values(1) perm_day_entry[OF assms] dates ..
  ultimately show ?thesis
    by (simp only: set_eq_iff_mset_eq_distinct)
qed

lemma date_lt_the:
  "date_lt date_parse a b \<Longrightarrow> the (date_parse (te_date a)) < the (date_parse (te_date b))"
  by (auto simp: date_lt_def split: option.splits)

lemma perm_timeline_eq:
  assumes "sorted_wrt (date_lt date_parse) xs" and "sorted_wrt (date_lt date_parse) ys"
    and "mset xs = mset ys"
  shows "xs = ys"
proof (rule strictly_sorted_unique)
  show "sorted_wrt (\<lambda>a b. the (date_parse (te_date a)) < the (date_parse (te_date b))) xs"
    using assms(1) by (rule sorted_wrt_mono_rel[rotated]) (rule date_lt_the)
  show "sorted_wrt (\<lambda>a b. the (date_parse (te_date a)) < the (date_parse (te_date b))) ys"
    using assms(2) by (rule sorted_wrt_mono_rel[rotated]) (rule date_lt_the)
  show "set xs = set ys"
    using assms(3) by (rule mset_eq_setD)
qed

subsection \<open>The sample run\<close>

lemma sample_run:
  "calculateMetrics iso_date_parse sample_sessions sample_pageviews = Inr sample_metrics"
  by code_simp

lemma sample_returns: "returns_ok sample_sessions"
  by code_simp

section \<open>Bounce rate\<close>

text \<open>
  Claim C1, amended. On every sessions array on which \<open>calculateMetrics\<close> returns
  (\<open>returns_ok\<close>), \<open>bouncedSessions\<close> is the number of session ids, among those
  the pageviews refer to, that are not inherited names and have exactly one pageview,
  and \<open>bounceRate\<close> is \<open>bouncedSessions / totalSessions * 100\<close>, or \<open>0\<close> when
  there is no session. The rate is never negative. It is at most \<open>100\<close> whenever the
  pageviews refer to at most \<open>totalSessions\<close> distinct session ids, and in particular
  whenever every pageview carries the id of a session of the array, whichever way
  \<open>ident\<close> the id of a session is read.
\<close>

theorem bounce_rate_range:
  assumes "returns_ok sessions"
  shows "\<exists>m. calculateMetrics date_parse sessions pageviews = Inr m \<and>
           totalSessions m = length sessions \<and>
           bounceRate m =
             (if totalSessions m > 0
              then real (length (filter (\<lambda>k. \<not> inherited k \<and> pageview_count pageviews k = 1)
                                   (remdups (map pv_key pageviews)))) /
                   real (totalSessions m) * 100
              else 0) \<and>
           0 \<le> bounceRate m \<and>
           (totalSessions m = 0 \<longrightarrow> bounceRate m = 0) \<and>
           (length (remdups (map pv_key pageviews)) \<le> totalSessions m \<longrightarrow>
              bounceRate m \<le> 100) \<and>
           (pv_key ` set pageviews \<subseteq> ident ` set sessions \<longrightarrow> bounceRate m \<le> 100)"
proof -
  let ?b = "length (filter (\<lambda>k. \<not> inherited k \<and> pageview_count pageviews k = 1)
                      (remdups (map pv_key pageviews)))"
  from assms obtain m where
    run: "calculateMetrics date_parse sessions pageviews = Inr m" and
    ts: "totalSessions m = length sessions" and
    br: "bounceRate m =
       (if length sessions > 0
        then real (bouncedSessions pageviews) / real (length sessions) * 100 else 0)"
    by (rule calculateMetrics_returns)
  have eq: "bounceRate m =
      (if totalSessions m > 0 then real ?b / real (totalSessions m) * 100 else 0)"
    unfolding br ts bouncedSessions_count by simp
  have nonneg: "0 \<le> bounceRate m"
    unfolding eq by simp
  have zero: "totalSessions m = 0 \<longrightarrow> bounceRate m = 0"
    unfolding eq by simp
  have le: "?b \<le> length (remdups (map pv_key pageviews))"
    by (rule length_filter_le)
  have upper: "bounceRate m \<le> 100" if "length (remdups (map pv_key pageviews)) \<le> totalSessions m"
  proof (cases "totalSessions m > 0")
    case True
    from order_trans[OF le that] have "real ?b \<le> real (totalSessions m)"
      by (simp only: of_nat_le_iff)
    then have "real ?b * 100 \<le> 100 * real (totalSessions m)"
      by linarith
    with True have "real ?b * 100 / real (totalSessions m) \<le> 100"
      by (simp only: pos_divide_le_eq of_nat_0_less_iff)
    then show ?thesis unfolding eq using True by simp
  next
    case False
    then show ?thesis unfolding eq by simp
  qed
  have refs: "length (remdups (map pv_key pageviews)) \<le> totalSessions m"
    if "pv_key ` set pageviews \<subseteq> ident ` set sessions"
  proof -
    have "length (remdups (map pv_key pageviews)) = card (pv_key ` set pageviews)"
      by (simp add: length_remdups_card_conv)
    also have "\<dots> \<le> card (ident ` set sessions)"
      using that by (simp add: card_mono)
    also have "\<dots> \<le> card (set sessions)"
      by (simp add: card_image_le)
    also have "\<dots> \<le> length sessions"
      by (rule card_length)
    finally show ?thesis
      unfolding ts .
  qed
  show ?thesis
  proof (intro exI conjI impI)
    show "calculateMetrics date_parse sessions pageviews = Inr m" by (rule run)
    show "totalSessions m = length sessions" by (rule ts)
    show "bounceRate m =
      (if totalSessions m > 0 then real ?b / real (totalSessions m) * 100 else 0)" by (rule eq)
    show "0 \<le> bounceRate m" by (rule nonneg)
    show "bounceRate m = 0" if "totalSessions m = 0" using zero that by simp
    show "bounceRate m \<le> 100" if "length (remdups (map pv_key pageviews)) \<le> totalSessions m"
      using that by (rule upper)
    show "bounceRate m \<le> 100" if "pv_key ` set pageviews \<subseteq> ident ` set sessions"
      using refs[OF that] by (rule upper)
  qed
qed

theorem bounce_rate_range_witness:
  "returns_ok sample_sessions \<and>
   length (remdups (map pv_key sample_pageviews)) \<le> length sample_sessions \<and>
   calculateMetrics iso_date_parse sample_sessions sample_pageviews = Inr sample_metrics \<and>
   bounceRate sample_metrics = 100 / 3 \<and> bounceRate sample_metrics \<le> 100 \<and>
   returns_ok lone_session \<and>
   pv_key ` set lone_pageviews \<subseteq> (to_key \<circ> user_id) ` set lone_session \<and>
   map_sum id bounceRate (calculateMetrics iso_date_parse lone_session lone_pageviews) =
     Inr 100"
proof -
  have ok: "returns_ok sample_sessions"
    by (rule sample_returns)
  have refs: "length (remdups (map pv_key sample_pageviews)) \<le> length sample_sessions"
    by code_simp
  have run:
    "calculateMetrics iso_date_parse sample_sessions sample_pageviews = Inr sample_metrics"
    by (rule sample_run)
  from bounce_rate_range[OF ok, where date_parse=iso_date_parse and pageviews=sample_pageviews
      and ident="\<lambda>s. []"]
  obtain m where m: "calculateMetrics iso_date_parse sample_sessions sample_pageviews = Inr m"
    and "totalSessions m = length sample_sessions"
    and "length (remdups (map pv_key sample_pageviews)) \<le> totalSessions m \<longrightarrow>
           bounceRate m \<le> 100"
    by blast
  with refs have "bounceRate m \<le> 100"
    by simp
  moreover from m run have "m = sample_metrics"
    by simp
  ultimately have le: "bounceRate sample_metrics \<le> 100"
    by simp
  have ok': "returns_ok lone_session"
    by code_simp
  have refs': "pv_key ` set lone_pageviews \<subseteq> (to_key \<circ> user_id) ` set lone_session"
    by code_simp
  from bounce_rate_range[OF ok', where date_parse=iso_date_parse and pageviews=lone_pageviews
      and ident="to_key \<circ> user_id"]
  obtain m where "calculateMetrics iso_date_parse lone_session lone_pageviews = Inr m"
    and "bounceRate m \<le> 100"
    using refs' by blast
  have run': "map_sum id bounceRate
      (calculateMetrics iso_date_parse lone_session lone_pageviews) = Inr 100"
    by code_simp
  from ok refs run le ok' refs' run' show ?thesis
    by (simp add: sample_metrics_def)
qed

text \<open>
  The claim as stated fails: with one session and two pageviews that belong to two
  other sessions, both count as bounced and the rate is 200.
\<close>

theorem bounce_rate_range_counterexample:
  "map_sum id bounceRate (calculateMetrics iso_date_parse lone_session orphan_pageviews) =
     Inr 200 \<and>
   \<not> (200 \<le> (100::real))"
  by code_simp

section \<open>Device counts\<close>




section \<open>The daily timeline\<close>

text \<open>
  Claim C3, amended. On every sessions array on which \<open>calculateMetrics\<close> returns,
  \<open>timelineData\<close> has one entry for every date portion of a \<open>created_at\<close> that
  is not an inherited name, with the numbers of sessions, desktop sessions and mobile
  sessions of that date, and no date twice. When every such date portion is a valid
  date for the runtime and no two of them denote the same day, the entries are in
  strictly ascending order of date.
\<close>

theorem timeline_sorted:
  assumes "returns_ok sessions"
  shows "\<exists>m. calculateMetrics date_parse sessions pageviews = Inr m \<and>
           distinct (map te_date (timelineData m)) \<and>
           set (timelineData m) = day_entry sessions ` timeline_dates sessions \<and>
           ((\<forall>d\<in>timeline_dates sessions. date_parse d \<noteq> None) \<and>
            inj_on date_parse (timeline_dates sessions) \<longrightarrow>
            sorted_wrt (date_lt date_parse) (timelineData m))"
proof -
  let ?l = "object_values (day_groups (filter (\<lambda>s. \<not> inherited (date_key s)) sessions))"
  from assms obtain m where
    run: "calculateMetrics date_parse sessions pageviews = Inr m" and
    tl: "timelineData m = js_sort (date_diff date_parse) ?l"
    by (rule calculateMetrics_returns)
  have set_l: "set ?l = day_entry sessions ` timeline_dates sessions"
    and dist_l: "distinct (map te_date ?l)"
    by (rule timeline_values)+
  have "mset (map te_date (timelineData m)) = mset (map te_date ?l)"
    unfolding tl by (simp only: mset_map mset_js_sort)
  with dist_l have dist: "distinct (map te_date (timelineData m))"
    by (metis mset_eq_imp_distinct_iff)
  have set_tl: "set (timelineData m) = day_entry sessions ` timeline_dates sessions"
    unfolding tl set_js_sort by (rule set_l)
  have srt: "sorted_wrt (date_lt date_parse) (timelineData m)"
    if "\<forall>d\<in>timeline_dates sessions. date_parse d \<noteq> None"
      and "inj_on date_parse (timeline_dates sessions)"
    unfolding tl using that by (rule timeline_sorted_list)
  from run dist set_tl srt show ?thesis by blast
qed

theorem timeline_sorted_witness:
  "returns_ok sample_sessions \<and>
   calculateMetrics iso_date_parse sample_sessions sample_pageviews = Inr sample_metrics \<and>
   map (iso_date_parse \<circ> date_key) sample_sessions =
     [Some 1332201600000, Some 1332115200000, Some 1332201600000] \<and>
   timelineData sample_metrics =
     [\<lparr>te_date = ''2012-03-19'', te_sessions = 1, te_desktop = 1, te_mobile = 0\<rparr>,
      \<lparr>te_date = ''2012-03-20'', te_sessions = 2, te_desktop = 0, te_mobile = 1\<rparr>] \<and>
   sorted_wrt (date_lt iso_date_parse) (timelineData sample_metrics)"
proof -
  have ok: "returns_ok sample_sessions"
    by (rule sample_returns)
  have run:
    "calculateMetrics iso_date_parse sample_sessions sample_pageviews = Inr sample_metrics"
    by (rule sample_run)
  have dates: "map (iso_date_parse \<circ> date_key) sample_sessions =
     [Some 1332201600000, Some 1332115200000, Some 1332201600000]"
    by code_simp
  have td: "timeline_dates sample_sessions = {''2012-03-20'', ''2012-03-19''}"
    unfolding timeline_dates_def by code_simp
  have valid: "\<forall>d\<in>timeline_dates sample_sessions. iso_date_parse d \<noteq> None"
    unfolding td by code_simp
  have inj: "inj_on iso_date_parse (timeline_dates sample_sessions)"
    unfolding td inj_on_def by code_simp
  from timeline_sorted[OF ok, where date_parse=iso_date_parse and pageviews=sample_pageviews]
  obtain m where m: "calculateMetrics iso_date_parse sample_sessions sample_pageviews = Inr m"
    and "(\<forall>d\<in>timeline_dates sample_sessions. iso_date_parse d \<noteq> None) \<and>
         inj_on iso_date_parse (timeline_dates sample_sessions) \<longrightarrow>
         sorted_wrt (date_lt iso_date_parse) (timelineData m)"
    by blast
  with valid inj have "sorted_wrt (date_lt iso_date_parse) (timelineData m)"
    by blast
  moreover from m run have "m = sample_metrics"
    by simp
  ultimately have "sorted_wrt (date_lt iso_date_parse) (timelineData sample_metrics)"
    by simp
  with ok run dates show ?thesis
    by (simp add: sample_metrics_def)
qed

text \<open>
  The claim as stated fails: dates written day first are not valid dates, the
  comparator yields \<open>NaN\<close> and the entries stay in the order of the input, which
  is neither ascending by date nor ascending as text.
\<close>

theorem timeline_sorted_counterexample:
  "map_sum id (map te_date \<circ> timelineData)
     (calculateMetrics iso_date_parse day_first_sessions []) =
     Inr [''19/03/2012'', ''18/03/2012''] \<and>
   map_sum id (sorted_wrt (date_lt iso_date_parse) \<circ> timelineData)
     (calculateMetrics iso_date_parse day_first_sessions []) = Inr False"
  by code_simp

section \<open>Top landing pages\<close>




section \<open>New and returning sessions\<close>

text \<open>
  Claim C5, amended. \<open>calculateMetrics\<close> returns exactly on the sessions arrays that
  satisfy \<open>returns_ok\<close>, and throws a TypeError on every other. When it returns,
  \<open>newSessions\<close> is the number of sessions whose \<open>is_repeat_session\<close> is the string
  \<open>"0"\<close>, \<open>returningSessions\<close> the number of those where it is the string
  \<open>"1"\<close>; together with the sessions carrying any other value they make up all
  sessions, so \<open>newSessions + returningSessions \<le> totalSessions\<close>.
\<close>

theorem new_returning_partition:
  "(returns_ok sessions \<longrightarrow>
      (\<exists>m. calculateMetrics date_parse sessions pageviews = Inr m \<and>
            totalSessions m = length sessions \<and>
            newSessions m = length (filter (\<lambda>s. is_repeat_session s = JStr ''0'') sessions) \<and>
            returningSessions m =
              length (filter (\<lambda>s. is_repeat_session s = JStr ''1'') sessions) \<and>
            newSessions m + returningSessions m +
              length (filter (\<lambda>s. is_repeat_session s \<noteq> JStr ''0'' \<and>
                                  is_repeat_session s \<noteq> JStr ''1'') sessions) =
              totalSessions m \<and>
            newSessions m + returningSessions m \<le> totalSessions m)) \<and>
   (\<not> returns_ok sessions \<longrightarrow>
      calculateMetrics date_parse sessions pageviews = Inl TypeError)"
proof (intro conjI impI)
  have part:
    "length (filter (\<lambda>s. g s = a) xs) + length (filter (\<lambda>s. g s = b) xs) +
       length (filter (\<lambda>s. g s \<noteq> a \<and> g s \<noteq> b) xs) = length xs"
    if "a \<noteq> b" for g :: "session \<Rightarrow> jsval" and a b xs
    using that by (induction xs) auto
  assume "returns_ok sessions"
  then obtain m where
    run: "calculateMetrics date_parse sessions pageviews = Inr m" and
    ts: "totalSessions m = length sessions" and
    ns: "newSessions m = length (filter (\<lambda>s. is_repeat_session s = JStr ''0'') sessions)" and
    rs: "returningSessions m =
       length (filter (\<lambda>s. is_repeat_session s = JStr ''1'') sessions)"
    by (rule calculateMetrics_returns)
  have sum: "newSessions m + returningSessions m +
      length (filter (\<lambda>s. is_repeat_session s \<noteq> JStr ''0'' \<and>
                          is_repeat_session s \<noteq> JStr ''1'') sessions) = totalSessions m"
    unfolding ns rs ts by (rule part) simp
  then have le: "newSessions m + returningSessions m \<le> totalSessions m"
    by linarith
  from run ts ns rs sum le
  show "\<exists>m. calculateMetrics date_parse sessions pageviews = Inr m \<and>
            totalSessions m = length sessions \<and>
            newSessions m = length (filter (\<lambda>s. is_repeat_session s = JStr ''0'') sessions) \<and>
            returningSessions m =
              length (filter (\<lambda>s. is_repeat_session s = JStr ''1'') sessions) \<and>
            newSessions m + returningSessions m +
              length (filter (\<lambda>s. is_repeat_session s \<noteq> JStr ''0'' \<and>
                                  is_repeat_session s \<noteq> JStr ''1'') sessions) =
              totalSessions m \<and>
            newSessions m + returningSessions m \<le> totalSessions m"
    by blast
next
  assume "\<not> returns_ok sessions"
  then show "calculateMetrics date_parse sessions pageviews = Inl TypeError"
    by (rule calculateMetrics_throws)
qed

text \<open>
  On the sample the third session has the number \<open>0\<close>, not the string: it is in
  neither bucket. On the session without \<open>created_at\<close> the computation throws.
\<close>

theorem new_returning_partition_witness:
  "returns_ok sample_sessions \<and>
   calculateMetrics iso_date_parse sample_sessions sample_pageviews = Inr sample_metrics \<and>
   newSessions sample_metrics = 1 \<and> returningSessions sample_metrics = 1 \<and>
   newSessions sample_metrics + returningSessions sample_metrics <
     totalSessions sample_metrics \<and>
   \<not> returns_ok undated_session \<and>
   calculateMetrics iso_date_parse undated_session sample_pageviews = Inl TypeError"
proof -
  have ok: "returns_ok sample_sessions"
    by (rule sample_returns)
  have run:
    "calculateMetrics iso_date_parse sample_sessions sample_pageviews = Inr sample_metrics"
    by (rule sample_run)
  from new_returning_partition[of sample_sessions iso_date_parse sample_pageviews] ok
  obtain m where m: "calculateMetrics iso_date_parse sample_sessions sample_pageviews = Inr m"
    and "newSessions m =
       length (filter (\<lambda>s. is_repeat_session s = JStr ''0'') sample_sessions)"
    and "returningSessions m =
       length (filter (\<lambda>s. is_repeat_session s = JStr ''1'') sample_sessions)"
    by blast
  moreover from m run have "m = sample_metrics"
    by simp
  moreover have "length (filter (\<lambda>s. is_repeat_session s = JStr ''0'') sample_sessions) = 1"
    and "length (filter (\<lambda>s. is_repeat_session s = JStr ''1'') sample_sessions) = 1"
    by code_simp+
  ultimately have counts: "newSessions sample_metrics = 1" "returningSessions sample_metrics = 1"
    by simp_all
  have bad: "\<not> returns_ok undated_session"
    by code_simp
  with new_returning_partition[of undated_session iso_date_parse sample_pageviews]
  have thrown: "calculateMetrics iso_date_parse undated_session sample_pageviews = Inl TypeError"
    by blast
  from ok run counts bad thrown show ?thesis
    by (simp add: sample_metrics_def)
qed

text \<open>
  The claim as stated fails: on a sessions array with a device type that is a number
  the device reduction throws before the two counts are taken, and no count is produced.
\<close>

theorem new_returning_partition_counterexample:
  "\<not> returns_ok numeric_device_session \<and>
   calculateMetrics iso_date_parse numeric_device_session [] = Inl TypeError"
  by code_simp

section \<open>The refund rate\<close>

text \<open>
  Claim C6. With the calculators of the specification, the \<open>refundRate\<close> of the
  hook's metrics is \<open>totalRefunds / totalRevenue\<close> when \<open>totalRevenue > 0\<close> and
  \<open>0\<close> otherwise, in particular whenever \<open>totalRevenue = 0\<close>, whatever the refunds
  are: no division by zero takes place.
\<close>

theorem refund_rate_guarded:
  "refundRate (useDashboardData_metrics spec_calculators orders refunds sessions pageviews
                 products) =
     (if spec_totalRevenue orders > 0
      then spec_totalRefunds refunds / spec_totalRevenue orders else 0) \<and>
   (spec_totalRevenue orders = 0 \<longrightarrow>
      refundRate (useDashboardData_metrics spec_calculators orders refunds sessions pageviews
                    products) = 0)"
  by (simp add: useDashboardData_metrics_def spec_calculators_def spec_refundRate_def)

theorem refund_rate_guarded_witness:
  "refundRate (useDashboardData_metrics spec_calculators
      [\<lparr>total_amount = 100\<rparr>, \<lparr>total_amount = 50\<rparr>] [\<lparr>amount = 25\<rparr>]
      ([]::session list) ([]::pageview list) ([]::unit list)) = 1 / 6 \<and>
   spec_totalRevenue [] = 0 \<and>
   refundRate (useDashboardData_metrics spec_calculators [] [\<lparr>amount = 25\<rparr>]
      ([]::session list) ([]::pageview list) ([]::unit list)) = 0"
  using refund_rate_guarded[of "[\<lparr>total_amount = 100\<rparr>, \<lparr>total_amount = 50\<rparr>]"
          "[\<lparr>amount = 25\<rparr>]" "[]::session list" "[]::pageview list" "[]::unit list"]
        refund_rate_guarded[of "[]" "[\<lparr>amount = 25\<rparr>]" "[]::session list"
          "[]::pageview list" "[]::unit list"]
  by (simp add: spec_totalRevenue_def spec_totalRefunds_def)

section \<open>Errors at the computation boundary\<close>

text \<open>
  Claim C7. Every metric computation is to end in a result or in a zeroed fallback,
  and no exception is to reach the caller. The traffic component has no such
  boundary: for a session without \<open>created_at\<close> the TypeError thrown by
  \<open>calculateMetrics\<close> leaves \<open>TrafficSection\<close>.
\<close>

theorem traffic_section_throws:
  "TrafficSection iso_date_parse undated_session [] = Inl TypeError"
  by code_simp

section \<open>The row cap\<close>

text \<open>
  Claim C8. The cap of 500 rows is applied before cleaning and in the same way to the
  six raw data sets: the result of \<open>processedData\<close> is that on the capped data, each
  cleaner is handed the first 500 rows of its array (all of them when there are fewer),
  and the empty array when the raw value is not an array.
\<close>

theorem row_cap_uniform:
  "processedData cl rw = processedData cl (capped rw) \<and>
   processedData echo_cleaners rw =
     (None, \<lparr>pd_orders = first_rows (ordersRaw rw),
             pd_orderItems = first_rows (orderItemsRaw rw),
             pd_refunds = first_rows (refundsRaw rw),
             pd_products = first_rows (productsRaw rw),
             pd_sessions = first_rows (sessionsRaw rw),
             pd_pageviews = first_rows (pageviewsRaw rw)\<rparr>) \<and>
   first_rows (Array xs) = take 500 xs \<and> first_rows NotArray = ([] :: 'r list) \<and>
   length (first_rows r) \<le> 500"
  for rw :: "'r raw_data" and xs :: "'r list" and r :: "'r raw"
proof -
  have idem: "take LIMIT_ROWS (first_rows r) = first_rows r" for r :: "'z raw"
    by (simp add: first_rows_def LIMIT_ROWS_def split: raw.splits)
  have lim: "(case r of Array xs \<Rightarrow> take LIMIT_ROWS xs | NotArray \<Rightarrow> []) = first_rows r"
    for r :: "'z raw"
    by (simp add: first_rows_def LIMIT_ROWS_def split: raw.splits)
  have a: "processedData cl rw = processedData cl (capped rw)"
    by (simp add: processedData_def capped_def idem lim)
  have b: "processedData echo_cleaners rw =
     (None, \<lparr>pd_orders = first_rows (ordersRaw rw),
             pd_orderItems = first_rows (orderItemsRaw rw),
             pd_refunds = first_rows (refundsRaw rw),
             pd_products = first_rows (productsRaw rw),
             pd_sessions = first_rows (sessionsRaw rw),
             pd_pageviews = first_rows (pageviewsRaw rw)\<rparr>)"
    by (simp add: processedData_def echo_cleaners_def lim)
  have c: "length (first_rows r) \<le> 500"
    by (simp add: first_rows_def split: raw.splits)
  from a b c show ?thesis by (simp add: first_rows_def)
qed

theorem row_cap_uniform_witness:
  "first_rows (Array (replicate 501 True)) = replicate 500 True \<and>
   first_rows (NotArray :: bool raw) = [] \<and>
   length (first_rows (Array (replicate 501 True))) \<le> 500"
  using row_cap_uniform[of echo_cleaners
          "\<lparr>ordersRaw = NotArray, orderItemsRaw = NotArray, refundsRaw = NotArray,
            productsRaw = NotArray, sessionsRaw = NotArray, pageviewsRaw = NotArray\<rparr>"
          "replicate 501 True" "Array (replicate 501 True)"]
  by (simp add: first_rows_def)

section \<open>Independence of the input order\<close>

text \<open>
  Claim C9, amended. Let the sessions and the pageviews be reordered. The computation
  throws on the reordered input exactly when it throws on the original one, that is
  when the sessions do not satisfy \<open>returns_ok\<close>; otherwise it returns on both, and
  \<open>totalSessions\<close>, \<open>uniqueUsers\<close>, \<open>newSessions\<close>, \<open>returningSessions\<close>,
  \<open>bounceRate\<close> and \<open>avgPagesPerSession\<close> are equal, \<open>deviceCounts\<close> holds the same
  value under every key, \<open>sourceData\<close> and \<open>campaignData\<close> are equal up to the order
  of their entries once the label of an entry is read as its key (and as they are when
  every \<open>utm_source\<close>, respectively \<open>utm_campaign\<close>, is a string or missing), and
  \<open>timelineData\<close> is equal up to the order of its entries; \<open>timelineData\<close> is the same
  list when every date portion that gets an entry is a valid date and no two of them
  denote the same day. When the pageviews keep their order, \<open>topLandingPages\<close> is
  equal too.
\<close>

theorem order_independence:
  assumes "mset sessions' = mset sessions" and "mset pageviews' = mset pageviews"
  shows "(\<not> returns_ok sessions \<longrightarrow>
            calculateMetrics date_parse sessions pageviews = Inl TypeError \<and>
            calculateMetrics date_parse sessions' pageviews' = Inl TypeError) \<and>
         (returns_ok sessions \<longrightarrow>
            (\<exists>m m'. calculateMetrics date_parse sessions pageviews = Inr m \<and>
               calculateMetrics date_parse sessions' pageviews' = Inr m' \<and>
               totalSessions m' = totalSessions m \<and>
               uniqueUsers m' = uniqueUsers m \<and>
               newSessions m' = newSessions m \<and>
               returningSessions m' = returningSessions m \<and>
               bounceRate m' = bounceRate m \<and>
               avgPagesPerSession m' = avgPagesPerSession m \<and>
               map_of (deviceCounts m') = map_of (deviceCounts m) \<and>
               mset (map source_row (sourceData m')) = mset (map source_row (sourceData m)) \<and>
               mset (map campaign_row (campaignData m')) =
                 mset (map campaign_row (campaignData m)) \<and>
               ((\<forall>s\<in>set sessions. text_or_missing (utm_source s)) \<longrightarrow>
                mset (sourceData m') = mset (sourceData m)) \<and>
               ((\<forall>s\<in>set sessions. text_or_missing (utm_campaign s)) \<longrightarrow>
                mset (campaignData m') = mset (campaignData m)) \<and>
               mset (timelineData m') = mset (timelineData m) \<and>
               ((\<forall>d\<in>timeline_dates sessions. date_parse d \<noteq> None) \<and>
                inj_on date_parse (timeline_dates sessions) \<longrightarrow>
                timelineData m' = timelineData m) \<and>
               (pageviews' = pageviews \<longrightarrow> topLandingPages m' = topLandingPages m)))"
proof (intro conjI impI)
  have sets: "set sessions' = set sessions"
    using assms(1) by (rule mset_eq_setD)
  then have ok_iff: "returns_ok sessions' = returns_ok sessions"
    by (simp add: returns_ok_def)
  {
    assume bad: "\<not> returns_ok sessions"
    then show "calculateMetrics date_parse sessions pageviews = Inl TypeError"
      by (rule calculateMetrics_throws)
    from bad have "\<not> returns_ok sessions'"
      by (simp add: ok_iff)
    then show "calculateMetrics date_parse sessions' pageviews' = Inl TypeError"
      by (rule calculateMetrics_throws)
  }
  assume ok: "returns_ok sessions"
  then have ok': "returns_ok sessions'"
    by (simp add: ok_iff)
  let ?plain = "\<lambda>s. \<not> inherited (campaign_key s)"
  let ?dated = "\<lambda>s. \<not> inherited (date_key s)"
  have len: "length sessions' = length sessions"
    using assms(1) by (rule mset_eq_length)
  have plen: "length pageviews' = length pageviews"
    using assms(2) by (rule mset_eq_length)
  have dates: "timeline_dates sessions' = timeline_dates sessions"
    by (simp add: timeline_dates_def sets)
  have cperm: "mset (filter ?plain sessions') = mset (filter ?plain sessions)"
    using assms(1) by (simp only: mset_filter)
  from ok obtain m where
    run: "calculateMetrics date_parse sessions pageviews = Inr m" and
    f: "totalSessions m = length sessions"
       "uniqueUsers m = length (remdups (map user_id sessions))"
       "bounceRate m =
         (if length sessions > 0
          then real (bouncedSessions pageviews) / real (length sessions) * 100 else 0)"
       "avgPagesPerSession m =
         (if length sessions > 0 then real (length pageviews) / real (length sessions) else 0)"
       "deviceCounts m = counters (map device_key sessions)"
       "newSessions m = length (filter (\<lambda>s. is_repeat_session s = JStr ''0'') sessions)"
       "returningSessions m = length (filter (\<lambda>s. is_repeat_session s = JStr ''1'') sessions)"
       "sourceData m =
         map (\<lambda>item. \<lparr>se_source = sb_source item, se_sessions = sb_sessions item,
                        se_users = length (sb_users item)\<rparr>)
             (object_values (source_groups sessions))"
       "campaignData m = object_values (campaign_groups (filter ?plain sessions))"
       "timelineData m =
         js_sort (date_diff date_parse) (object_values (day_groups (filter ?dated sessions)))"
       "topLandingPages m =
         js_sort by_sessions_desc
           (map (\<lambda>(url, count). \<lparr>le_url = url, le_sessions = count\<rparr>)
                (object_entries (la_pages (landingPages pageviews))))"
    by (rule calculateMetrics_returns)
  from ok' obtain m' where
    run': "calculateMetrics date_parse sessions' pageviews' = Inr m'" and
    f': "totalSessions m' = length sessions'"
       "uniqueUsers m' = length (remdups (map user_id sessions'))"
       "bounceRate m' =
         (if length sessions' > 0
          then real (bouncedSessions pageviews') / real (length sessions') * 100 else 0)"
       "avgPagesPerSession m' =
         (if length sessions' > 0 then real (length pageviews') / real (length sessions') else 0)"
       "deviceCounts m' = counters (map device_key sessions')"
       "newSessions m' = length (filter (\<lambda>s. is_repeat_session s = JStr ''0'') sessions')"
       "returningSessions m' = length (filter (\<lambda>s. is_repeat_session s = JStr ''1'') sessions')"
       "sourceData m' =
         map (\<lambda>item. \<lparr>se_source = sb_source item, se_sessions = sb_sessions item,
                        se_users = length (sb_users item)\<rparr>)
             (object_values (source_groups sessions'))"
       "campaignData m' = object_values (campaign_groups (filter ?plain sessions'))"
       "timelineData m' =
         js_sort (date_diff date_parse) (object_values (day_groups (filter ?dated sessions')))"
       "topLandingPages m' =
         js_sort by_sessions_desc
           (map (\<lambda>(url, count). \<lparr>le_url = url, le_sessions = count\<rparr>)
                (object_entries (la_pages (landingPages pageviews'))))"
    by (rule calculateMetrics_returns)
  have c1: "totalSessions m' = totalSessions m"
    unfolding f f' by (rule len)
  have c2: "uniqueUsers m' = uniqueUsers m"
    unfolding f f' length_remdups_card_conv by (simp add: sets)
  have c3: "newSessions m' = newSessions m"
    unfolding f f' using assms(1) by (rule perm_length_filter)
  have c4: "returningSessions m' = returningSessions m"
    unfolding f f' using assms(1) by (rule perm_length_filter)
  have c5: "bounceRate m' = bounceRate m"
    unfolding f f' len perm_bouncedSessions[OF assms(2)] ..
  have c6: "avgPagesPerSession m' = avgPagesPerSession m"
    unfolding f f' len plen ..
  have c7: "map_of (deviceCounts m') = map_of (deviceCounts m)"
    unfolding f f' using assms(1) by (rule perm_deviceCounts)
  have c8: "mset (map source_row (sourceData m')) = mset (map source_row (sourceData m))"
    unfolding f f' using perm_sourceData[OF assms(1)]
    by (simp add: comp_def source_row_def)
  have c9: "mset (map campaign_row (campaignData m')) = mset (map campaign_row (campaignData m))"
    unfolding f f' using cperm by (rule perm_campaignData)
  have c8': "mset (sourceData m') = mset (sourceData m)"
    if labels: "\<forall>s\<in>set sessions. text_or_missing (utm_source s)"
  proof (rule mset_map_inj[OF c8], rule inj_onI)
    from labels have labels': "\<forall>s\<in>set sessions'. text_or_missing (utm_source s)"
      by (simp only: sets)
    have strs: "\<exists>a. se_source x = JStr a"
      if "x \<in> set (sourceData m') \<union> set (sourceData m)" for x
    proof -
      from that consider "x \<in> set (sourceData m')" | "x \<in> set (sourceData m)"
        by blast
      then show ?thesis
      proof cases
        case 1
        then show ?thesis
          unfolding f'(8) by (rule source_entries_text[OF labels'])
      next
        case 2
        then show ?thesis
          unfolding f(8) by (rule source_entries_text[OF labels])
      qed
    qed
    fix e e'
    assume "e \<in> set (sourceData m') \<union> set (sourceData m)"
      and "e' \<in> set (sourceData m') \<union> set (sourceData m)"
      and rows: "source_row e = source_row e'"
    then obtain a a' where "se_source e = JStr a" "se_source e' = JStr a'"
      using strs by blast
    then show "e = e'"
      using rows by (rule source_row_text)
  qed
  have c9': "mset (campaignData m') = mset (campaignData m)"
    if labels0: "\<forall>s\<in>set sessions. text_or_missing (utm_campaign s)"
  proof (rule mset_map_inj[OF c9], rule inj_onI)
    from labels0 have labels: "\<forall>s\<in>set (filter ?plain sessions). text_or_missing (utm_campaign s)"
      by simp
    from labels0 have
      labels': "\<forall>s\<in>set (filter ?plain sessions'). text_or_missing (utm_campaign s)"
      by (simp add: sets)
    have strs: "\<exists>a. ce_campaign x = JStr a"
      if "x \<in> set (campaignData m') \<union> set (campaignData m)" for x
    proof -
      from that consider "x \<in> set (campaignData m')" | "x \<in> set (campaignData m)"
        by blast
      then show ?thesis
      proof cases
        case 1
        then show ?thesis
          unfolding f'(9) by (rule campaign_entries_text[OF labels'])
      next
        case 2
        then show ?thesis
          unfolding f(9) by (rule campaign_entries_text[OF labels])
      qed
    qed
    fix e e'
    assume "e \<in> set (campaignData m') \<union> set (campaignData m)"
      and "e' \<in> set (campaignData m') \<union> set (campaignData m)"
      and rows: "campaign_row e = campaign_row e'"
    then obtain a a' where "ce_campaign e = JStr a" "ce_campaign e' = JStr a'"
      using strs by blast
    then show "e = e'"
      using rows by (rule campaign_row_text)
  qed
  have c10: "mset (timelineData m') = mset (timelineData m)"
    unfolding f f' mset_js_sort using assms(1) by (rule perm_timeline_mset)
  have c11: "timelineData m' = timelineData m"
    if valid: "\<forall>d\<in>timeline_dates sessions. date_parse d \<noteq> None"
      and inj: "inj_on date_parse (timeline_dates sessions)"
  proof -
    have s: "sorted_wrt (date_lt date_parse) (timelineData m)"
      unfolding f using valid inj by (rule timeline_sorted_list)
    have s': "sorted_wrt (date_lt date_parse) (timelineData m')"
      unfolding f' using valid inj unfolding dates[symmetric] by (rule timeline_sorted_list)
    from s' s c10 show ?thesis
      by (rule perm_timeline_eq)
  qed
  have c12: "topLandingPages m' = topLandingPages m" if "pageviews' = pageviews"
    unfolding f f' that ..
  show "\<exists>m m'. calculateMetrics date_parse sessions pageviews = Inr m \<and>
               calculateMetrics date_parse sessions' pageviews' = Inr m' \<and>
               totalSessions m' = totalSessions m \<and>
               uniqueUsers m' = uniqueUsers m \<and>
               newSessions m' = newSessions m \<and>
               returningSessions m' = returningSessions m \<and>
               bounceRate m' = bounceRate m \<and>
               avgPagesPerSession m' = avgPagesPerSession m \<and>
               map_of (deviceCounts m') = map_of (deviceCounts m) \<and>
               mset (map source_row (sourceData m')) = mset (map source_row (sourceData m)) \<and>
               mset (map campaign_row (campaignData m')) =
                 mset (map campaign_row (campaignData m)) \<and>
               ((\<forall>s\<in>set sessions. text_or_missing (utm_source s)) \<longrightarrow>
                mset (sourceData m') = mset (sourceData m)) \<and>
               ((\<forall>s\<in>set sessions. text_or_missing (utm_campaign s)) \<longrightarrow>
                mset (campaignData m') = mset (campaignData m)) \<and>
               mset (timelineData m') = mset (timelineData m) \<and>
               ((\<forall>d\<in>timeline_dates sessions. date_parse d \<noteq> None) \<and>
                inj_on date_parse (timeline_dates sessions) \<longrightarrow>
                timelineData m' = timelineData m) \<and>
               (pageviews' = pageviews \<longrightarrow> topLandingPages m' = topLandingPages m)"
  proof (rule exI[of _ m], rule exI[of _ m'], intro conjI impI)
    show "calculateMetrics date_parse sessions pageviews = Inr m"
      by (rule run)
    show "calculateMetrics date_parse sessions' pageviews' = Inr m'"
      by (rule run')
    show "totalSessions m' = totalSessions m"
      by (rule c1)
    show "uniqueUsers m' = uniqueUsers m"
      by (rule c2)
    show "newSessions m' = newSessions m"
      by (rule c3)
    show "returningSessions m' = returningSessions m"
      by (rule c4)
    show "bounceRate m' = bounceRate m"
      by (rule c5)
    show "avgPagesPerSession m' = avgPagesPerSession m"
      by (rule c6)
    show "map_of (deviceCounts m') = map_of (deviceCounts m)"
      by (rule c7)
    show "mset (map source_row (sourceData m')) = mset (map source_row (sourceData m))"
      by (rule c8)
    show "mset (map campaign_row (campaignData m')) = mset (map campaign_row (campaignData m))"
      by (rule c9)
    show "mset (sourceData m') = mset (sourceData m)"
      if "\<forall>s\<in>set sessions. text_or_missing (utm_source s)"
      using that by (rule c8')
    show "mset (campaignData m') = mset (campaignData m)"
      if "\<forall>s\<in>set sessions. text_or_missing (utm_campaign s)"
      using that by (rule c9')
    show "mset (timelineData m') = mset (timelineData m)"
      by (rule c10)
    show "timelineData m' = timelineData m"
      if "(\<forall>d\<in>timeline_dates sessions. date_parse d \<noteq> None) \<and>
          inj_on date_parse (timeline_dates sessions)"
      using that c11 by blast
    show "topLandingPages m' = topLandingPages m" if "pageviews' = pageviews"
      using that by (rule c12)
  qed
qed

text \<open>
  The sample and its reversal: every field but \<open>topLandingPages\<close> is as the theorem
  says. A session without \<open>created_at\<close> makes the computation throw wherever it
  stands among the sessions.
\<close>

theorem order_independence_witness:
  "mset (rev sample_sessions) = mset sample_sessions \<and>
   mset (rev sample_pageviews) = mset sample_pageviews \<and>
   returns_ok sample_sessions \<and>
   calculateMetrics iso_date_parse sample_sessions sample_pageviews = Inr sample_metrics \<and>
   map_sum id bounceRate
     (calculateMetrics iso_date_parse (rev sample_sessions) (rev sample_pageviews)) =
     Inr (bounceRate sample_metrics) \<and>
   map_sum id (mset \<circ> sourceData)
     (calculateMetrics iso_date_parse (rev sample_sessions) (rev sample_pageviews)) =
     Inr (mset (sourceData sample_metrics)) \<and>
   map_sum id (mset \<circ> campaignData)
     (calculateMetrics iso_date_parse (rev sample_sessions) (rev sample_pageviews)) =
     Inr (mset (campaignData sample_metrics)) \<and>
   map_sum id timelineData
     (calculateMetrics iso_date_parse (rev sample_sessions) (rev sample_pageviews)) =
     Inr (timelineData sample_metrics) \<and>
   map_sum id topLandingPages
     (calculateMetrics iso_date_parse (rev sample_sessions) (rev sample_pageviews)) \<noteq>
     Inr (topLandingPages sample_metrics) \<and>
   \<not> returns_ok (sample_sessions @ undated_session) \<and>
   mset (undated_session @ sample_sessions) = mset (sample_sessions @ undated_session) \<and>
   calculateMetrics iso_date_parse (undated_session @ sample_sessions) sample_pageviews =
     Inl TypeError"
proof -
  have ps: "mset (rev sample_sessions) = mset sample_sessions"
    and pp: "mset (rev sample_pageviews) = mset sample_pageviews"
    by simp_all
  have ok: "returns_ok sample_sessions"
    by (rule sample_returns)
  have run:
    "calculateMetrics iso_date_parse sample_sessions sample_pageviews = Inr sample_metrics"
    by (rule sample_run)
  have td: "timeline_dates sample_sessions = {''2012-03-20'', ''2012-03-19''}"
    unfolding timeline_dates_def by code_simp
  have valid: "\<forall>d\<in>timeline_dates sample_sessions. iso_date_parse d \<noteq> None"
    unfolding td by code_simp
  have inj: "inj_on iso_date_parse (timeline_dates sample_sessions)"
    unfolding td inj_on_def by code_simp
  have sources: "\<forall>s\<in>set sample_sessions. text_or_missing (utm_source s)"
    by code_simp
  have campaigns: "\<forall>s\<in>set sample_sessions. text_or_missing (utm_campaign s)"
    by code_simp
  from order_independence[OF ps pp, where date_parse=iso_date_parse] ok
  obtain m m' where
    m: "calculateMetrics iso_date_parse sample_sessions sample_pageviews = Inr m" and
    m': "calculateMetrics iso_date_parse (rev sample_sessions) (rev sample_pageviews) = Inr m'"
    and b: "bounceRate m' = bounceRate m"
    and s: "(\<forall>s\<in>set sample_sessions. text_or_missing (utm_source s)) \<longrightarrow>
          mset (sourceData m') = mset (sourceData m)"
    and c: "(\<forall>s\<in>set sample_sessions. text_or_missing (utm_campaign s)) \<longrightarrow>
          mset (campaignData m') = mset (campaignData m)"
    and t: "(\<forall>d\<in>timeline_dates sample_sessions. iso_date_parse d \<noteq> None) \<and>
          inj_on iso_date_parse (timeline_dates sample_sessions) \<longrightarrow>
          timelineData m' = timelineData m"
    by blast
  from m run have eq: "m = sample_metrics"
    by simp
  from b s c t valid inj sources campaigns have
    "bounceRate m' = bounceRate sample_metrics"
    "mset (sourceData m') = mset (sourceData sample_metrics)"
    "mset (campaignData m') = mset (campaignData sample_metrics)"
    "timelineData m' = timelineData sample_metrics"
    unfolding eq by blast+
  then have same: "map_sum id bounceRate
     (calculateMetrics iso_date_parse (rev sample_sessions) (rev sample_pageviews)) =
     Inr (bounceRate sample_metrics) \<and>
   map_sum id (mset \<circ> sourceData)
     (calculateMetrics iso_date_parse (rev sample_sessions) (rev sample_pageviews)) =
     Inr (mset (sourceData sample_metrics)) \<and>
   map_sum id (mset \<circ> campaignData)
     (calculateMetrics iso_date_parse (rev sample_sessions) (rev sample_pageviews)) =
     Inr (mset (campaignData sample_metrics)) \<and>
   map_sum id timelineData
     (calculateMetrics iso_date_parse (rev sample_sessions) (rev sample_pageviews)) =
     Inr (timelineData sample_metrics)"
    unfolding m' by simp
  have landing: "map_sum id topLandingPages
     (calculateMetrics iso_date_parse (rev sample_sessions) (rev sample_pageviews)) \<noteq>
     Inr (topLandingPages sample_metrics)"
    by code_simp
  have bad: "\<not> returns_ok (sample_sessions @ undated_session)"
    by code_simp
  have pu: "mset (undated_session @ sample_sessions) = mset (sample_sessions @ undated_session)"
    by simp
  have pv: "mset sample_pageviews = mset sample_pageviews"
    by simp
  from order_independence[OF pu pv, where date_parse=iso_date_parse] bad
  have thrown: "calculateMetrics iso_date_parse (undated_session @ sample_sessions)
      sample_pageviews = Inl TypeError"
    by blast
  from ps pp ok run same landing bad pu thrown show ?thesis
    by blast
qed

text \<open>
  The claim as stated fails: with dates that are not valid the entries of
  \<open>timelineData\<close> keep the order of the sessions, so reversing the sessions reverses
  them. And when the number 5 and the string 5 occur as sources, the one bucket they
  share is labelled by whichever comes first.
\<close>

theorem order_independence_counterexample:
  "mset (rev day_first_sessions) = mset day_first_sessions \<and>
   map_sum id timelineData (calculateMetrics iso_date_parse (rev day_first_sessions) []) \<noteq>
   map_sum id timelineData (calculateMetrics iso_date_parse day_first_sessions []) \<and>
   map_sum id sourceData (calculateMetrics iso_date_parse mixed_label_sessions []) =
     Inr [\<lparr>se_source = JNum 5, se_sessions = 2, se_users = 2\<rparr>] \<and>
   map_sum id sourceData (calculateMetrics iso_date_parse (rev mixed_label_sessions) []) =
     Inr [\<lparr>se_source = JStr ''5'', se_sessions = 2, se_users = 2\<rparr>]"
proof (intro conjI)
  show "mset (rev day_first_sessions) = mset day_first_sessions"
    by simp
  show "map_sum id timelineData (calculateMetrics iso_date_parse (rev day_first_sessions) []) \<noteq>
   map_sum id timelineData (calculateMetrics iso_date_parse day_first_sessions [])"
    by code_simp
  show "map_sum id sourceData (calculateMetrics iso_date_parse mixed_label_sessions []) =
     Inr [\<lparr>se_source = JNum 5, se_sessions = 2, se_users = 2\<rparr>]"
    by code_simp
  show "map_sum id sourceData (calculateMetrics iso_date_parse (rev mixed_label_sessions) []) =
     Inr [\<lparr>se_source = JStr ''5'', se_sessions = 2, se_users = 2\<rparr>]"
    by code_simp
qed

section \<open>Traffic by source\<close>





end
